theory Spec2Isabelle
  imports Main
begin

section \<open>The launcher: process scheduler and result aggregator\<close>

text \<open>
  A shallow embedding of the \<open>Launcher\<close> class: the two dispatch loops
  \<open>runTestcases\<close> and \<open>runSpecs\<close>, the exit handling (\<open>endHandler\<close>,
  \<open>exitHandler\<close>) and the message handling (\<open>messageHandler\<close>,
  \<open>evaluateValidations\<close>). The fields of the class are the fields of the record
  \<open>launcher\<close>; every method takes the launcher and returns the updated one. A thrown
  \<open>TypeError\<close> is the left injection of the result.

  Numbers are integers (\<open>int\<close>): the counters of the schedule only ever move by one.
  A runner id, the string \<open>`${cid}-${n}`\<close> of \<open>getRunnerId\<close>, is the pair
  \<open>(cid, n)\<close>; \<open>getCidGroup\<close>, which reads \<open>split('-')[0]\<close>, and the
  \<open>parseInt(cid, 10)\<close> of \<open>endHandler\<close> both read its first component.
\<close>

text \<open>
  \<open>TypeError\<close> and \<open>SyntaxError\<close> are the exceptions of the engine.
  \<open>NativeProperty\<close> is no exception: it marks the one place where the launcher goes
  on to test and to set properties of a native object (see \<open>storyScreenshot\<close>);
  what it finds there depends on the engine, and the embedding ends there.
\<close>

datatype error = TypeError | SyntaxError | NativeProperty

type_synonym runner_id = "nat \<times> nat"

definition getCidGroup :: "runner_id \<Rightarrow> nat" where
  "getCidGroup c = fst c"

subsection \<open>Objects used as dictionaries\<close>

text \<open>
  The launcher keeps its results in plain objects (\<open>{}\<close>) and looks them up by
  strings that come with the messages: story ids, criteria ids, the messages of
  assertions. A plain object inherits the members of \<open>Object.prototype\<close>, so
  \<open>obj[k]\<close> and \<open>k in obj\<close> find something under these names on every object,
  also on an empty one. A dictionary is a map of its own properties; \<open>get\<close> is
  \<open>obj[k]\<close> and \<open>has\<close> is \<open>k in obj\<close>. \<open>Native\<close> stands for the
  inherited member, a function of the engine (for \<open>__proto__\<close> the prototype
  itself): it is truthy and has none of the properties and methods that the launcher
  expects of its own values.
\<close>

definition objectPrototype :: "string list" where
  "objectPrototype =
     [''constructor'', ''__defineGetter__'', ''__defineSetter__'', ''hasOwnProperty'',
      ''__lookupGetter__'', ''__lookupSetter__'', ''isPrototypeOf'', ''propertyIsEnumerable'',
      ''toString'', ''valueOf'', ''__proto__'', ''toLocaleString'']"

datatype 'a property = Undefined | Native | Value 'a

definition get :: "(string \<rightharpoonup> 'a) \<Rightarrow> string \<Rightarrow> 'a property" where
  "get obj k =
     (case obj k of
        Some v \<Rightarrow> Value v
      | None \<Rightarrow> if k \<in> set objectPrototype then Native else Undefined)"

definition has :: "string \<Rightarrow> (string \<rightharpoonup> 'a) \<Rightarrow> bool" where
  "has k obj = (obj k \<noteq> None \<or> k \<in> set objectPrototype)"

definition ofOption :: "'a option \<Rightarrow> 'a property" where
  "ofOption x = (case x of None \<Rightarrow> Undefined | Some v \<Rightarrow> Value v)"

subsection \<open>Data\<close>

text \<open>
  A capability as \<open>run\<close> reads it: its own instance limit, if it has one, and the
  files that \<open>configParser.getTestcases\<close> and \<open>configParser.getSpecs\<close> resolve
  for it.
\<close>

record capability =
  cap_maxInstances :: "int option"
  cap_testcases :: "string list"
  cap_specs :: "string list"

record config =
  maxInstances :: int
  maxInstancesPerCapability :: int
  bail :: "int option"
  multiremote :: bool
  reportErrorsInstantly :: bool

text \<open>
  One entry of \<open>this.schedule\<close>. An entry of the first phase carries
  \<open>testcases\<close> and one of the second phase \<open>specs\<close>; \<open>runTestcases\<close>
  never reads \<open>specs\<close> and \<open>runSpecs\<close> never reads \<open>testcases\<close>.
\<close>

record sched_entry =
  cid :: nat
  caps :: capability
  testcases :: "string list"
  specs :: "string list"
  availableInstances :: int
  runningInstances :: int

text \<open>
  An error-like object: the \<open>assertion\<close> of a message, the \<open>err\<close> of a message
  and the outcomes stored in the validation results all are objects with some of these
  properties; \<open>None\<close> is \<open>undefined\<close>.
\<close>

record err_obj =
  matcherName :: "string option"
  message :: "string option"
  stack :: "string option"
  expected :: "string option"
  actual :: "string option"
  errorType :: "string option"
  specObj :: "(string \<times> string list) list option"
  screenshotFilename :: "string option"
  screenshotId :: "string option"

definition noErr :: err_obj where
  "noErr = \<lparr>matcherName = None, message = None, stack = None, expected = None, actual = None,
     errorType = None, specObj = None, screenshotFilename = None, screenshotId = None\<rparr>"

type_synonym screenshot = "string \<times> string"

datatype step_status = Passed | Failed

text \<open>
  The title of a \<open>test:\<close> event is a text that the handler decodes with
  \<open>JSON.parse\<close>, a function of the engine. A message carries, next to the title it
  arrives with, what \<open>JSON.parse\<close> makes of that title: a \<open>SyntaxError\<close>
  (\<open>NotJson\<close>), the value \<open>null\<close> (\<open>JsonNull\<close>), or a value with these
  properties \<open>title\<close> and \<open>metadata\<close>.
\<close>

datatype json_title = NotJson | JsonNull | JsonValue "string option" "string option"

text \<open>
  A message of a worker, with the properties the handlers read or write. Where the name
  of a property is taken by a field of another record it carries the suffix \<open>_m\<close>.
\<close>

record message =
  event :: string
  cid_m :: "runner_id option"
  title :: "string option"
  titleJson :: json_title
  metadata :: "string option"
  specs_m :: "string list option"
  spec :: "string option"
  testcase :: "string option"
  status :: "step_status option"
  validate :: "(string option \<times> string option) option"
  assertion :: "err_obj option"
  err :: "err_obj option"
  errs :: "err_obj list option"
  assertionFailures_m :: "err_obj list option"
  screenshots_m :: "(string \<rightharpoonup> screenshot list) property"
  arguments_m :: "string property"
  stack_m :: "string option"
  name :: "string option"
  command :: "string option"

definition noMessage :: message where
  "noMessage = \<lparr>event = [], cid_m = None, title = None, titleJson = NotJson, metadata = None,
     specs_m = None, spec = None, testcase = None,
     status = None, validate = None, assertion = None, err = None, errs = None,
     assertionFailures_m = None, screenshots_m = Undefined, arguments_m = Undefined,
     stack_m = None, name = None, command = None\<rparr>"

text \<open>The record of one story in \<open>this.validationResults[group]\<close>.\<close>

record story =
  successes :: "string \<rightharpoonup> err_obj list"
  failures :: "string \<rightharpoonup> err_obj list"
  arguments :: "string \<rightharpoonup> string"
  screenshots :: "string \<rightharpoonup> (string \<rightharpoonup> screenshot list)"

definition newStory :: story where
  "newStory = \<lparr>successes = Map.empty, failures = Map.empty, arguments = Map.empty,
     screenshots = Map.empty\<rparr>"

record validation_state =
  storyId :: "string option"
  criteriaId :: "string option"
  assertionFailures :: "err_obj list option"
  screenshots_v :: "(string \<rightharpoonup> screenshot list) option"

definition newValidationState :: validation_state where
  "newValidationState = \<lparr>storyId = None, criteriaId = None, assertionFailures = None,
     screenshots_v = None\<rparr>"

text \<open>
  \<open>this.stepStates[group]\<close>. \<open>minusOne\<close> is the property \<open>"-1"\<close> that the
  assignment \<open>levelStatus[levelStatus.length - 1] = 'failed'\<close> creates on an empty
  array; it is no element of the array.
\<close>

record step_state =
  stepLevel :: int
  levelStatus :: "step_status list"
  minusOne :: "step_status option"

record step_errors =
  failed :: "err_obj list"
  broken :: "err_obj list"

datatype run_func = RunTestcases | RunSpecs

text \<open>
  What the reporters receive, in the order of the calls of \<open>handleEvent\<close>: the name
  of an event and the message, the \<open>startSpecs\<close> event of a validator, and the
  \<open>end\<close> event with \<open>sigint\<close> and \<open>exitCode\<close>.
\<close>

datatype report = Report string message | StartSpecs runner_id | End bool int

record launcher =
  exitCode :: int
  hasTriggeredExitRoutine :: bool
  hasStartedAnyProcess :: bool
  processes :: "(runner_id \<times> string list) list"
  schedule :: "sched_entry list"
  rid :: "nat \<Rightarrow> nat"
  processesStarted :: nat
  runnerFailed :: int
  finishedTests :: bool
  validationResults :: "nat \<rightharpoonup> (string \<rightharpoonup> story)"
  validationStates :: "nat \<rightharpoonup> validation_state"
  stepStates :: "nat \<rightharpoonup> step_state"
  stackStore :: "runner_id \<rightharpoonup> string"
  stackStoreLocks :: "runner_id \<Rightarrow> bool"
  waitUntilErrors :: "runner_id \<rightharpoonup> string"
  stepErrors :: "nat \<rightharpoonup> step_errors"
  endHandlerRunFunc :: run_func
  reported :: "report list"

text \<open>The state the constructor leaves.\<close>

definition newLauncher :: launcher where
  "newLauncher = \<lparr>exitCode = 0, hasTriggeredExitRoutine = False, hasStartedAnyProcess = False,
     processes = [], schedule = [], rid = (\<lambda>_. 0), processesStarted = 0, runnerFailed = 0,
     finishedTests = False, validationResults = Map.empty, validationStates = Map.empty,
     stepStates = Map.empty, stackStore = Map.empty, stackStoreLocks = (\<lambda>_. False),
     waitUntilErrors = Map.empty, stepErrors = Map.empty, endHandlerRunFunc = RunTestcases,
     reported = []\<rparr>"

subsection \<open>\<open>Array.prototype.sort\<close> with a comparator\<close>

text \<open>
  Both dispatch loops sort with
  \<open>.sort((a, b) => a.runningInstances > b.runningInstances)\<close>. The comparator returns a
  boolean, which the sort reads as the number 1 or 0; it never returns a negative
  number. ECMAScript leaves the order implementation-defined for such a comparator, so the
  model takes the algorithm of V8 since version 7.0 (Node 11 and later): count the run at
  the start of the array (\<open>CountAndMakeRun\<close>), then insert the other elements by
  binary search (\<open>BinaryInsertionSort\<close>). This is all V8 does on fewer than 64
  elements, and all it does on any array whose first run is the whole array. (The
  insertion sort of older V8 versions tested \<open>order > 0\<close> only and so did order up
  to ten elements with this comparator; the code has no claim on either behaviour.)
\<close>

fun continueRun :: "('a \<Rightarrow> 'a \<Rightarrow> int) \<Rightarrow> bool \<Rightarrow> 'a \<Rightarrow> 'a list \<Rightarrow> nat" where
  "continueRun comparefn isDescending previousElement [] = 0"
| "continueRun comparefn isDescending previousElement (currentElement # rest) =
     (let order = comparefn currentElement previousElement
      in if (if isDescending then 0 \<le> order else order < 0) then 0
         else Suc (continueRun comparefn isDescending currentElement rest))"

definition countAndMakeRun :: "('a \<Rightarrow> 'a \<Rightarrow> int) \<Rightarrow> 'a list \<Rightarrow> 'a list \<times> 'a list" where
  "countAndMakeRun comparefn xs =
     (case xs of
        elementHigh # elementLow # rest \<Rightarrow>
          (let isDescending = (comparefn elementLow elementHigh < 0);
               runLength = 2 + continueRun comparefn isDescending elementLow rest
           in (if isDescending then rev (take runLength xs) else take runLength xs,
               drop runLength xs))
      | _ \<Rightarrow> (xs, []))"

function binarySearch :: "('a \<Rightarrow> 'a \<Rightarrow> int) \<Rightarrow> 'a \<Rightarrow> 'a list \<Rightarrow> nat \<Rightarrow> nat \<Rightarrow> nat" where
  "binarySearch comparefn pivot xs left right =
     (if left < right
      then (let mid = left + (right - left) div 2
            in if comparefn pivot (xs ! mid) < 0
               then binarySearch comparefn pivot xs left mid
               else binarySearch comparefn pivot xs (mid + 1) right)
      else left)"
  by pat_completeness auto
termination
  by (relation "measure (\<lambda>(comparefn, pivot, xs, left, right). right - left)") auto

definition binaryInsert :: "('a \<Rightarrow> 'a \<Rightarrow> int) \<Rightarrow> 'a list \<Rightarrow> 'a \<Rightarrow> 'a list" where
  "binaryInsert comparefn sorted_part pivot =
     (let left = binarySearch comparefn pivot sorted_part 0 (length sorted_part)
      in take left sorted_part @ pivot # drop left sorted_part)"

definition sort_js :: "('a \<Rightarrow> 'a \<Rightarrow> int) \<Rightarrow> 'a list \<Rightarrow> 'a list" where
  "sort_js comparefn xs =
     (case countAndMakeRun comparefn xs of
        (run, rest) \<Rightarrow> foldl (binaryInsert comparefn) run rest)"

text \<open>
  The comparator of the dispatch loops, on candidates that carry their position in the
  schedule: \<open>true\<close> is 1 and \<open>false\<close> is 0.
\<close>

definition byRunningInstances :: "nat \<times> sched_entry \<Rightarrow> nat \<times> sched_entry \<Rightarrow> int" where
  "byRunningInstances a b = (if runningInstances (snd a) > runningInstances (snd b) then 1 else 0)"

subsection \<open>Schedule accounting\<close>

text \<open>
  \<open>reduce\<close> with an initial value is \<open>foldl\<close>; without one it takes the first
  element as the initial value and throws a \<open>TypeError\<close> on an empty array.
\<close>

definition reduce1 :: "('a \<Rightarrow> 'a \<Rightarrow> 'a) \<Rightarrow> 'a list \<Rightarrow> error + 'a" where
  "reduce1 f xs = (case xs of [] \<Rightarrow> Inl TypeError | x # rest \<Rightarrow> Inr (foldl f x rest))"

definition getNumberOfRunningInstances :: "launcher \<Rightarrow> int" where
  "getNumberOfRunningInstances st = foldl (\<lambda>a b. a + b) 0 (map runningInstances (schedule st))"

definition getNumberOfTestcasesLeft :: "launcher \<Rightarrow> error + int" where
  "getNumberOfTestcasesLeft st =
     reduce1 (\<lambda>a b. a + b) (map (\<lambda>a. int (length (testcases a))) (schedule st))"

definition getNumberOfSpecsLeft :: "launcher \<Rightarrow> int" where
  "getNumberOfSpecsLeft st =
     foldl (\<lambda>a b. a + b) 0 (map (\<lambda>a. int (length (specs a))) (schedule st))"

subsection \<open>Starting a worker\<close>

definition getRunnerId :: "nat \<Rightarrow> launcher \<Rightarrow> runner_id \<times> launcher" where
  "getRunnerId c st = ((c, rid st c), st\<lparr>rid := (rid st)(c := rid st c + 1)\<rparr>)"

text \<open>
  \<open>startRunnerInstance\<close> and \<open>startValidatorInstance\<close> fork a child process. Of
  the child the model keeps its runner id and the work it was sent, appended to
  \<open>processes\<close>; the debug and exec arguments of the fork are left out.
\<close>

definition startRunnerInstance :: "string list \<Rightarrow> nat \<Rightarrow> launcher \<Rightarrow> launcher" where
  "startRunnerInstance work c st =
     (case getRunnerId c st of
        (r, st1) \<Rightarrow> st1\<lparr>processes := processes st1 @ [(r, work)],
                        processesStarted := processesStarted st1 + 1\<rparr>)"

definition startValidatorInstance :: "string list \<Rightarrow> nat \<Rightarrow> launcher \<Rightarrow> launcher" where
  "startValidatorInstance work c st =
     (case getRunnerId c st of
        (r, st1) \<Rightarrow> st1\<lparr>processes := processes st1 @ [(r, work)],
                        reported := reported st1 @ [StartSpecs r],
                        processesStarted := processesStarted st1 + 1\<rparr>)"

subsection \<open>The dispatch loop of the first phase\<close>

text \<open>
  The first filter of \<open>runTestcases\<close> ignores the entry: it keeps every entry or
  none. When it keeps none its callback empties \<open>testcases\<close> of every entry of the
  schedule; on an empty schedule the callback is never called.
\<close>

definition bailFilter :: "config \<Rightarrow> launcher \<Rightarrow> bool" where
  "bailFilter cfg st = (case bail cfg of None \<Rightarrow> True | Some b \<Rightarrow> b < 1 \<or> b > runnerFailed st)"

definition clearTestcases :: "launcher \<Rightarrow> launcher" where
  "clearTestcases st = st\<lparr>schedule := map (\<lambda>t. t\<lparr>testcases := []\<rparr>) (schedule st)\<rparr>"

definition schedulableTestcases :: "config \<Rightarrow> launcher \<Rightarrow> (nat \<times> sched_entry) list" where
  "schedulableTestcases cfg st =
     sort_js byRunningInstances
       (filter (\<lambda>(i, a). 0 < length (testcases a))
         (filter (\<lambda>(i, a). 0 < availableInstances a)
           (filter (\<lambda>(i, a). getNumberOfRunningInstances st < maxInstances cfg)
             (filter (\<lambda>(i, a). bailFilter cfg st)
               (enumerate 0 (schedule st))))))"

text \<open>
  One pass through the body of the \<open>while\<close> loop; the boolean is \<open>False\<close> when the
  pass ends in \<open>break\<close>. A candidate is an entry of the schedule itself, so the
  updates of \<open>schedulableCaps[0]\<close> are updates of the schedule at its position. The
  filters leave only entries with a non-empty \<open>testcases\<close>, so \<open>shift\<close> returns its
  head.
\<close>

definition testcasesPass :: "config \<Rightarrow> launcher \<Rightarrow> launcher \<times> bool" where
  "testcasesPass cfg st =
     (let st1 = (if bailFilter cfg st \<or> schedule st = [] then st else clearTestcases st)
      in case schedulableTestcases cfg st of
           [] \<Rightarrow> (st1, False)
         | (i, a) # _ \<Rightarrow>
             (let st2 = st1\<lparr>schedule := (schedule st1)[i := a\<lparr>testcases := tl (testcases a)\<rparr>]\<rparr>;
                  st3 = startRunnerInstance [hd (testcases a)] (cid a) st2;
                  b = schedule st3 ! i
              in (st3\<lparr>schedule := (schedule st3)
                        [i := b\<lparr>availableInstances := availableInstances b - 1,
                                runningInstances := runningInstances b + 1\<rparr>]\<rparr>, True)))"

subsection \<open>The dispatch loop of the second phase\<close>

definition schedulableSpecs :: "config \<Rightarrow> launcher \<Rightarrow> (nat \<times> sched_entry) list" where
  "schedulableSpecs cfg st =
     sort_js byRunningInstances
       (filter (\<lambda>(i, a). 0 < length (specs a))
         (filter (\<lambda>(i, a). 0 < availableInstances a)
           (filter (\<lambda>(i, a). getNumberOfRunningInstances st < maxInstances cfg)
             (enumerate 0 (schedule st)))))"

definition specsPass :: "config \<Rightarrow> launcher \<Rightarrow> launcher \<times> bool" where
  "specsPass cfg st =
     (case schedulableSpecs cfg st of
        [] \<Rightarrow> (st, False)
      | (i, a) # _ \<Rightarrow>
          (let st2 = st\<lparr>schedule := (schedule st)[i := a\<lparr>specs := tl (specs a)\<rparr>]\<rparr>;
               st3 = startValidatorInstance [hd (specs a)] (cid a) st2;
               b = schedule st3 ! i
           in (st3\<lparr>schedule := (schedule st3)
                     [i := b\<lparr>availableInstances := availableInstances b - 1,
                             runningInstances := runningInstances b + 1\<rparr>]\<rparr>, True)))"

subsection \<open>The loops\<close>

text \<open>
  The comparator of the dispatch loops never returns a negative number, so the run that
  \<open>CountAndMakeRun\<close> finds is the whole array and the sort returns the candidates
  in the order of the schedule.
\<close>

lemma continueRun_nonneg:
  "(\<And>a b. 0 \<le> comparefn a b) \<Longrightarrow> continueRun comparefn False p xs = length xs"
  by (induction xs arbitrary: p) (simp_all add: Let_def not_less)

lemma countAndMakeRun_nonneg:
  assumes "\<And>a b. 0 \<le> comparefn a b"
  shows "countAndMakeRun comparefn xs = (xs, [])"
proof (cases xs)
  case Nil then show ?thesis by (simp add: countAndMakeRun_def)
next
  case (Cons x ys)
  show ?thesis
  proof (cases ys)
    case Nil with Cons show ?thesis by (simp add: countAndMakeRun_def)
  next
    case (Cons y zs)
    have "\<not> comparefn y x < 0" using assms [of y x] by simp
    then show ?thesis using \<open>xs = x # ys\<close> Cons
      by (simp add: countAndMakeRun_def Let_def continueRun_nonneg [OF assms])
  qed
qed

lemma sort_js_nonneg: "(\<And>a b. 0 \<le> comparefn a b) \<Longrightarrow> sort_js comparefn xs = xs"
  by (simp add: sort_js_def countAndMakeRun_nonneg)

lemma sort_js_byRunningInstances: "sort_js byRunningInstances xs = xs"
  by (rule sort_js_nonneg) (simp add: byRunningInstances_def)

text \<open>With a comparator that returns a number the model sorts; with a boolean one it does not.\<close>

lemma sort_js_numeric_example:
  "sort_js (\<lambda>a b. a - b) [3, 1, 2, 5, 4, 0 :: int] = [0, 1, 2, 3, 4, 5]"
  by (simp add: sort_js_def countAndMakeRun_def binaryInsert_def Let_def)

lemma sort_js_boolean_example:
  "sort_js (\<lambda>a b. if a > b then 1 else 0) [3, 1, 2 :: int] = [3, 1, 2]"
  by (simp add: sort_js_def countAndMakeRun_def binaryInsert_def Let_def)

lemma foldl_plus_int: "foldl (\<lambda>a b. a + b) z xs = z + sum_list xs" for z :: int
  by (induction xs arbitrary: z) simp_all

lemma running_sum: "getNumberOfRunningInstances st = sum_list (map runningInstances (schedule st))"
  by (simp add: getNumberOfRunningInstances_def foldl_plus_int)

lemma sum_list_update_running:
  "i < length s \<Longrightarrow> sum_list (map runningInstances (s[i := e])) =
     sum_list (map runningInstances s) - runningInstances (s ! i) + runningInstances e"
  by (induction s arbitrary: i) (auto split: nat.splits)

lemma candidate_in_schedule:
  "(i, a) \<in> set (filter P (enumerate 0 s)) \<Longrightarrow> i < length s \<and> s ! i = a"
  by (auto simp: in_set_enumerate_eq)

lemma schedule_startRunnerInstance [simp]:
  "schedule (startRunnerInstance w c st) = schedule st"
  by (simp add: startRunnerInstance_def getRunnerId_def)

lemma schedule_startValidatorInstance [simp]:
  "schedule (startValidatorInstance w c st) = schedule st"
  by (simp add: startValidatorInstance_def getRunnerId_def)

text \<open>What a pass that dispatches does to the schedule.\<close>

definition dispatched :: "sched_entry \<Rightarrow> sched_entry" where
  "dispatched a = a\<lparr>availableInstances := availableInstances a - 1,
                     runningInstances := runningInstances a + 1\<rparr>"

lemma testcasesPass_True:
  assumes "testcasesPass cfg st = (st', True)"
  shows "\<exists>i. i < length (schedule st) \<and> testcases (schedule st ! i) \<noteq> []
           \<and> 0 < availableInstances (schedule st ! i) \<and> bailFilter cfg st
           \<and> getNumberOfRunningInstances st < maxInstances cfg
           \<and> schedule st' = (schedule st)
                [i := dispatched ((schedule st ! i)\<lparr>testcases := tl (testcases (schedule st ! i))\<rparr>)]"
proof -
  obtain i a rest where c: "schedulableTestcases cfg st = (i, a) # rest"
    using assms by (auto simp: testcasesPass_def Let_def split: list.splits)
  then have m: "(i, a) \<in> set (schedulableTestcases cfg st)" by simp
  then have b: "bailFilter cfg st"
    by (auto simp: schedulableTestcases_def sort_js_byRunningInstances)
  from m have ia: "i < length (schedule st) \<and> schedule st ! i = a"
    by (auto simp: schedulableTestcases_def sort_js_byRunningInstances in_set_enumerate_eq)
  from m have p: "testcases a \<noteq> [] \<and> 0 < availableInstances a
      \<and> getNumberOfRunningInstances st < maxInstances cfg"
    by (auto simp: schedulableTestcases_def sort_js_byRunningInstances)
  have "schedule st' = (schedule st)[i := dispatched (a\<lparr>testcases := tl (testcases a)\<rparr>)]"
    using assms c b ia by (auto simp: testcasesPass_def Let_def dispatched_def)
  with ia p b show ?thesis by auto
qed

lemma specsPass_True:
  assumes "specsPass cfg st = (st', True)"
  shows "\<exists>i. i < length (schedule st) \<and> specs (schedule st ! i) \<noteq> []
           \<and> 0 < availableInstances (schedule st ! i)
           \<and> getNumberOfRunningInstances st < maxInstances cfg
           \<and> schedule st' = (schedule st)
                [i := dispatched ((schedule st ! i)\<lparr>specs := tl (specs (schedule st ! i))\<rparr>)]"
proof -
  obtain i a rest where c: "schedulableSpecs cfg st = (i, a) # rest"
    using assms by (auto simp: specsPass_def Let_def split: list.splits)
  then have m: "(i, a) \<in> set (schedulableSpecs cfg st)" by simp
  from m have ia: "i < length (schedule st) \<and> schedule st ! i = a"
    by (auto simp: schedulableSpecs_def sort_js_byRunningInstances in_set_enumerate_eq)
  from m have p: "specs a \<noteq> [] \<and> 0 < availableInstances a
      \<and> getNumberOfRunningInstances st < maxInstances cfg"
    by (auto simp: schedulableSpecs_def sort_js_byRunningInstances)
  have "schedule st' = (schedule st)[i := dispatched (a\<lparr>specs := tl (specs a)\<rparr>)]"
    using assms c ia by (auto simp: specsPass_def Let_def dispatched_def)
  with ia p show ?thesis by auto
qed

lemma testcasesPass_running:
  "testcasesPass cfg st = (st', True) \<Longrightarrow>
     getNumberOfRunningInstances st' = getNumberOfRunningInstances st + 1"
  by (drule testcasesPass_True) (auto simp: running_sum sum_list_update_running dispatched_def)

lemma specsPass_running:
  "specsPass cfg st = (st', True) \<Longrightarrow>
     getNumberOfRunningInstances st' = getNumberOfRunningInstances st + 1"
  by (drule specsPass_True) (auto simp: running_sum sum_list_update_running dispatched_def)

function testcasesLoop :: "config \<Rightarrow> launcher \<Rightarrow> launcher" where
  "testcasesLoop cfg st =
     (if getNumberOfRunningInstances st < maxInstances cfg
      then (case testcasesPass cfg st of
              (st', True) \<Rightarrow> testcasesLoop cfg st'
            | (st', False) \<Rightarrow> st')
      else st)"
  by pat_completeness auto
termination
  by (relation "measure (\<lambda>(cfg, st). nat (maxInstances cfg - getNumberOfRunningInstances st))")
     (auto dest: testcasesPass_running [OF sym])

declare testcasesLoop.simps [simp del]

function specsLoop :: "config \<Rightarrow> launcher \<Rightarrow> launcher" where
  "specsLoop cfg st =
     (if getNumberOfRunningInstances st < maxInstances cfg
      then (case specsPass cfg st of
              (st', True) \<Rightarrow> specsLoop cfg st'
            | (st', False) \<Rightarrow> st')
      else st)"
  by pat_completeness auto
termination
  by (relation "measure (\<lambda>(cfg, st). nat (maxInstances cfg - getNumberOfRunningInstances st))")
     (auto dest: specsPass_running [OF sym])

declare specsLoop.simps [simp del]

definition runTestcases :: "config \<Rightarrow> launcher \<Rightarrow> error + (launcher \<times> bool)" where
  "runTestcases cfg st =
     (if hasTriggeredExitRoutine st then Inr (st, True)
      else (let st' = testcasesLoop cfg st
            in if getNumberOfRunningInstances st' = 0
               then (case getNumberOfTestcasesLeft st' of
                       Inl e \<Rightarrow> Inl e
                     | Inr n \<Rightarrow> Inr (st', n = 0))
               else Inr (st', False)))"

definition runSpecs :: "config \<Rightarrow> launcher \<Rightarrow> launcher \<times> bool" where
  "runSpecs cfg st =
     (if hasTriggeredExitRoutine st then (st, True)
      else (let st' = specsLoop cfg st
            in (st', getNumberOfRunningInstances st' = 0 \<and> getNumberOfSpecsLeft st' = 0)))"

subsection \<open>Worker exit and interrupt\<close>

text \<open>
  \<open>endHandler\<close> returns the launcher and, when it calls \<open>this.resolve\<close>, the
  value it resolves the promise of the phase with. The exit code of the child is a
  number.
\<close>

definition resolveRun :: "launcher \<Rightarrow> launcher \<times> int option" where
  "resolveRun st =
     (st\<lparr>reported := reported st @ [End (hasTriggeredExitRoutine st) (exitCode st)]\<rparr>,
      Some (if exitCode st = 0 then exitCode st else 1))"

definition callRunFunc :: "config \<Rightarrow> launcher \<Rightarrow> error + (launcher \<times> bool)" where
  "callRunFunc cfg st =
     (case endHandlerRunFunc st of
        RunTestcases \<Rightarrow> runTestcases cfg st
      | RunSpecs \<Rightarrow> Inr (runSpecs cfg st))"

definition recordExit :: "int \<Rightarrow> launcher \<Rightarrow> launcher" where
  "recordExit childProcessExitCode st =
     st\<lparr>exitCode := (if exitCode st \<noteq> 0 then exitCode st else childProcessExitCode),
        runnerFailed := runnerFailed st + (if childProcessExitCode \<noteq> 0 then 1 else 0)\<rparr>"

text \<open>\<open>this.schedule[cid].availableInstances++; this.schedule[cid].runningInstances--\<close>\<close>

definition releaseInstance :: "nat \<Rightarrow> launcher \<Rightarrow> launcher" where
  "releaseInstance i st =
     (let a = schedule st ! i
      in st\<lparr>schedule := (schedule st)
              [i := a\<lparr>availableInstances := availableInstances a + 1,
                      runningInstances := runningInstances a - 1\<rparr>]\<rparr>)"

definition endHandler :: "config \<Rightarrow> runner_id \<Rightarrow> int \<Rightarrow> launcher \<Rightarrow> error + (launcher \<times> int option)" where
  "endHandler cfg c childProcessExitCode st =
     (let st1 = recordExit childProcessExitCode st
      in if multiremote cfg then Inr (resolveRun st1)
         else (let i = fst c
               in if i < length (schedule st1)
                  then (case callRunFunc cfg (releaseInstance i st1) of
                          Inl e \<Rightarrow> Inl e
                        | Inr (st3, False) \<Rightarrow> Inr (st3, None)
                        | Inr (st3, True) \<Rightarrow> Inr (resolveRun st3))
                  else Inl TypeError))"

definition exitHandler :: "launcher \<Rightarrow> launcher \<times> int option" where
  "exitHandler st =
     (if hasTriggeredExitRoutine st \<or> \<not> hasStartedAnyProcess st then (st, Some 1)
      else (st\<lparr>hasTriggeredExitRoutine := True\<rparr>, None))"

subsection \<open>The schedules that \<open>run\<close> builds\<close>

text \<open>\<open>capabilities.maxInstances || config.maxInstancesPerCapability\<close>: 0 is falsy.\<close>

definition instanceLimit :: "config \<Rightarrow> capability \<Rightarrow> int" where
  "instanceLimit cfg c =
     (case cap_maxInstances c of
        None \<Rightarrow> maxInstancesPerCapability cfg
      | Some n \<Rightarrow> if n = 0 then maxInstancesPerCapability cfg else n)"

definition testcaseSchedule :: "config \<Rightarrow> capability list \<Rightarrow> sched_entry list" where
  "testcaseSchedule cfg capabilities =
     map (\<lambda>(i, c). \<lparr>cid = i, caps = c, testcases = cap_testcases c, specs = [],
                     availableInstances = instanceLimit cfg c, runningInstances = 0\<rparr>)
         (enumerate 0 capabilities)"

definition specSchedule :: "config \<Rightarrow> capability list \<Rightarrow> sched_entry list" where
  "specSchedule cfg capabilities =
     map (\<lambda>(i, c). \<lparr>cid = i, caps = c, testcases = [], specs = cap_specs c,
                     availableInstances = instanceLimit cfg c, runningInstances = 0\<rparr>)
         (enumerate 0 capabilities)"

section \<open>The result aggregator\<close>

subsection \<open>Strings\<close>

text \<open>
  The string operations the handlers use, on \<open>string\<close>. \<open>toStr\<close> is the
  conversion of a value that may be \<open>undefined\<close> when it is concatenated with a
  string or used as a property key; \<open>truthy\<close> is the test \<open>if (s)\<close> on such a
  value.
\<close>

definition nl :: char where
  "nl = CHR 0x0A"

definition toStr :: "string option \<Rightarrow> string" where
  "toStr s = (case s of None \<Rightarrow> ''undefined'' | Some t \<Rightarrow> t)"

definition truthy :: "string option \<Rightarrow> bool" where
  "truthy s = (case s of None \<Rightarrow> False | Some t \<Rightarrow> t \<noteq> [])"

fun split_js :: "char \<Rightarrow> string \<Rightarrow> string list" where
  "split_js c [] = [[]]"
| "split_js c (x # xs) =
     (if x = c then [] # split_js c xs
      else (case split_js c xs of l # ls \<Rightarrow> (x # l) # ls | [] \<Rightarrow> [[x]]))"

definition join_js :: "string \<Rightarrow> string list \<Rightarrow> string" where
  "join_js sep ls = (case ls of [] \<Rightarrow> [] | l # rest \<Rightarrow> foldl (\<lambda>acc x. acc @ sep @ x) l rest)"

definition isWhiteSpace :: "char \<Rightarrow> bool" where
  "isWhiteSpace c = (c \<in> set [CHR 0x09, CHR 0x0A, CHR 0x0B, CHR 0x0C, CHR 0x0D, CHR 0x20, CHR 0xA0])"

definition trim :: "string \<Rightarrow> string" where
  "trim s = rev (dropWhile isWhiteSpace (rev (dropWhile isWhiteSpace s)))"

fun indexOf :: "string \<Rightarrow> string \<Rightarrow> int" where
  "indexOf [] pat = (if pat = [] then 0 else - 1)"
| "indexOf (x # xs) pat =
     (if take (length pat) (x # xs) = pat then 0
      else (let r = indexOf xs pat in if r < 0 then - 1 else r + 1))"

fun lastIndexOf :: "string \<Rightarrow> char \<Rightarrow> int" where
  "lastIndexOf [] c = - 1"
| "lastIndexOf (x # xs) c =
     (let r = lastIndexOf xs c in if 0 \<le> r then r + 1 else if x = c then 0 else - 1)"

subsection \<open>Classifying a criteria\<close>

text \<open>
  \<open>map(...).reduce((prev, cur) => prev + '\n\n' + cur)\<close> over the messages or the
  stacks of the failures: no initial value, so an empty array throws and a single element
  is returned as it is.
\<close>

definition joinOutcomes :: "string option list \<Rightarrow> error + string option" where
  "joinOutcomes xs = reduce1 (\<lambda>prev cur. Some (toStr prev @ [nl, nl] @ toStr cur)) xs"

definition notValidated :: "string option \<Rightarrow> string option \<Rightarrow> message \<Rightarrow> message" where
  "notValidated story_id criteria_id m =
     m\<lparr>err := Some (noErr\<lparr>message :=
        Some (''Spec '' @ toStr story_id @ '': Then '' @ toStr criteria_id @ '' was not validated!'')\<rparr>)\<rparr>"

text \<open>
  \<open>evaluateValidations\<close> returns the status, the message with the properties it
  sets, and the launcher. Under the name of a member of \<open>Object.prototype\<close> that
  is no property of its own, \<open>validationResults[group][storyId]\<close> is a native
  value without \<open>failures\<close>, and \<open>story.failures[criteriaId]\<close> is one without
  \<open>map\<close>: both throw.
\<close>

definition evaluateValidations ::
  "string option \<Rightarrow> string option \<Rightarrow> message \<Rightarrow> launcher \<Rightarrow> error + (string \<times> message \<times> launcher)" where
  "evaluateValidations story_id criteria_id m st =
     (case cid_m m of
        None \<Rightarrow> Inl TypeError
      | Some c \<Rightarrow>
          (case validationResults st (getCidGroup c) of
             None \<Rightarrow> Inr (''unvalidated'', notValidated story_id criteria_id m, st)
           | Some stories \<Rightarrow>
               (case get stories (toStr story_id) of
                  Undefined \<Rightarrow> Inr (''unvalidated'', notValidated story_id criteria_id m, st)
                | Native \<Rightarrow> Inl TypeError
                | Value story \<Rightarrow>
                    (case get (failures story) (toStr criteria_id) of
                       Value fs \<Rightarrow>
                         (case joinOutcomes (map message fs) of
                            Inl e \<Rightarrow> Inl e
                          | Inr msg \<Rightarrow>
                              (case joinOutcomes (map stack fs) of
                                 Inl e \<Rightarrow> Inl e
                               | Inr stk \<Rightarrow>
                                   Inr (if list_ex (\<lambda>err. matcherName err = None) fs
                                        then ''broken'' else ''fail'',
                                        m\<lparr>err := Some (noErr\<lparr>message := Some (toStr msg @ [nl]),
                                                            stack := stk,
                                                            matcherName := Some []\<rparr>),
                                          errs := Some fs,
                                          screenshots_m := get (screenshots story) (toStr criteria_id)\<rparr>,
                                        st)))
                     | Native \<Rightarrow> Inl TypeError
                     | Undefined \<Rightarrow>
                         (case get (successes story) (toStr criteria_id) of
                            Undefined \<Rightarrow>
                              Inr (''unvalidated'', notValidated story_id criteria_id m, st)
                          | Native \<Rightarrow> Inr (''pass'', m, st)
                          | Value ss \<Rightarrow> Inr (''pass'', m, st))))))"

text \<open>
  In \<open>addTestArguments\<close> a native value in the place of the story has no dictionary
  \<open>arguments\<close> to read the criteria from.
\<close>

definition addTestArguments :: "string option \<Rightarrow> string option \<Rightarrow> message \<Rightarrow> launcher \<Rightarrow> error + message" where
  "addTestArguments story_id criteria_id m st =
     (case cid_m m of
        None \<Rightarrow> Inl TypeError
      | Some c \<Rightarrow>
          (case validationResults st (getCidGroup c) of
             None \<Rightarrow> Inr m
           | Some stories \<Rightarrow>
               (case get stories (toStr story_id) of
                  Undefined \<Rightarrow> Inr m
                | Native \<Rightarrow> Inl TypeError
                | Value story \<Rightarrow>
                    Inr (m\<lparr>arguments_m := get (arguments story) (toStr criteria_id)\<rparr>))))"

subsection \<open>Messages of the second phase\<close>

text \<open>
  The \<open>switch\<close> that \<open>messageHandler\<close> runs once \<open>finishedTests\<close> is set,
  for a message whose \<open>cid\<close> is \<open>c\<close>, and the call of the reporters after it.
\<close>

definition report :: "message \<Rightarrow> launcher \<Rightarrow> launcher" where
  "report m st = st\<lparr>reported := reported st @ [Report (event m) m]\<rparr>"

definition validationMessage :: "runner_id \<Rightarrow> message \<Rightarrow> launcher \<Rightarrow> error + (message \<times> launcher)" where
  "validationMessage c m st =
     (let g = getCidGroup c
      in if event m = ''test:start''
         then (case specs_m m of
                 None \<Rightarrow> Inl TypeError
               | Some fs \<Rightarrow> Inr (m\<lparr>spec := (case fs of [] \<Rightarrow> None | f # _ \<Rightarrow> Some f)\<rparr>, st))
         else if event m = ''step:end''
         then (let m1 = m\<lparr>status := Some Passed\<rparr>
               in case validate m1 of
                    None \<Rightarrow> Inr (m1, st)
                  | Some (s, cr) \<Rightarrow>
                      (let vs = (case validationStates st g of
                                   None \<Rightarrow> newValidationState | Some v \<Rightarrow> v);
                           st1 = st\<lparr>validationStates := (validationStates st)
                                   (g \<mapsto> vs\<lparr>storyId := s, criteriaId := cr\<rparr>)\<rparr>
                       in case evaluateValidations s cr m1 st1 of
                            Inl e \<Rightarrow> Inl e
                          | Inr (verdict, m2, st2) \<Rightarrow> Inr (m2\<lparr>event := ''step:'' @ verdict\<rparr>, st2)))
         else if event m = ''test:pass''
         then (case validationStates st g of
                 None \<Rightarrow> Inl TypeError
               | Some vs \<Rightarrow>
                   (case evaluateValidations (storyId vs) (criteriaId vs) m st of
                      Inl e \<Rightarrow> Inl e
                    | Inr (verdict, m2, st2) \<Rightarrow>
                        (case addTestArguments (storyId vs) (criteriaId vs)
                                (m2\<lparr>event := ''test:'' @ verdict\<rparr>) st2 of
                           Inl e \<Rightarrow> Inl e
                         | Inr m3 \<Rightarrow> Inr (m3, st2))))
         else Inr (m, st))"

subsection \<open>Stacks\<close>

definition containStackFilter :: "string list" where
  "containStackFilter =
     [''at new Promise'', ''/node_modules/'', ''runMicrotasksCallback'',
      CHR 0x5C # ''node_modules'' @ [CHR 0x5C]]"

definition stackFilter :: "string list" where
  "stackFilter =
     [''at <anonymous>'', ''at new Promise (<anonymous>)'', ''at Promise (<anonymous>)'',
      ''Error'']"

definition isFiltered :: "string \<Rightarrow> bool" where
  "isFiltered line =
     (let trimmedLine = trim line
      in list_ex (\<lambda>filterLine. 0 < indexOf trimmedLine filterLine) containStackFilter
         \<or> list_ex (\<lambda>filterLine. filterLine = trimmedLine) stackFilter)"

definition getPatchedStack :: "err_obj \<Rightarrow> runner_id \<Rightarrow> launcher \<Rightarrow> error + string" where
  "getPatchedStack source c st =
     (case stack source of
        None \<Rightarrow> Inl TypeError
      | Some s \<Rightarrow>
          (let combinedStack =
                 (if truthy (errorType source) \<and> truthy (stackStore st c)
                     \<and> indexOf s ''at testcase ('' < 0
                  then s @ [nl] @ toStr (stackStore st c) else s)
           in Inr (join_js [nl] (filter (\<lambda>line. \<not> isFiltered line) (split_js nl combinedStack)))))"

text \<open>
  \<open>if (!m.assertion.message && m.assertion.stack)\<close>: an assertion without a message
  takes the first line of its stack as its message.
\<close>

definition fixEmptyMessage :: "err_obj \<Rightarrow> err_obj" where
  "fixEmptyMessage a =
     (if \<not> truthy (message a) \<and> truthy (stack a)
      then a\<lparr>message := (case split_js nl (toStr (stack a)) of
                            [] \<Rightarrow> stack a | l # _ \<Rightarrow> Some l)\<rparr>
      else a)"

subsection \<open>Failures of a test\<close>

text \<open>\<open>if (!(group in this.validationResults)) this.validationResults[group] = {}\<close>\<close>

definition ensureResults :: "nat \<Rightarrow> launcher \<Rightarrow> launcher" where
  "ensureResults g st =
     (if validationResults st g = None
      then st\<lparr>validationResults := (validationResults st)(g \<mapsto> Map.empty)\<rparr> else st)"

definition pushFailure :: "err_obj \<Rightarrow> string \<Rightarrow> story \<Rightarrow> story" where
  "pushFailure a criteria s =
     s\<lparr>failures := (failures s)
          (criteria \<mapsto> (case failures s criteria of None \<Rightarrow> [] | Some fs \<Rightarrow> fs)
             @ [noErr\<lparr>matcherName := matcherName a, message := message a,
                      expected := expected a, actual := actual a, stack := stack a\<rparr>])\<rparr>"

text \<open>
  The inner loop of \<open>fillValidationResults\<close>, on the story of one key. A criteria
  that \<open>in\<close> finds among the failures gets no array of its own; when it is found
  there only as an inherited member, \<open>push\<close> is called on a native value and throws.
\<close>

fun fillCriterias :: "err_obj \<Rightarrow> string list \<Rightarrow> story \<Rightarrow> error + story" where
  "fillCriterias a [] s = Inr s"
| "fillCriterias a (criteria # rest) s =
     (case get (failures s) criteria of
        Native \<Rightarrow> Inl TypeError
      | Undefined \<Rightarrow> fillCriterias a rest (pushFailure a criteria s)
      | Value fs \<Rightarrow> fillCriterias a rest (pushFailure a criteria s))"

text \<open>
  The outer loop, on the stories of the group. A key that \<open>in\<close> finds as an
  inherited member gets no story; its criterias are then looked up in the
  \<open>failures\<close> of a native value, which are \<open>undefined\<close>.
\<close>

fun fillKeys :: "err_obj \<Rightarrow> (string \<times> string list) list \<Rightarrow> (string \<rightharpoonup> story) \<Rightarrow> error + (string \<rightharpoonup> story)" where
  "fillKeys a [] stories = Inr stories"
| "fillKeys a ((key, criterias) # rest) stories =
     (case get stories key of
        Native \<Rightarrow> if criterias = [] then fillKeys a rest stories else Inl TypeError
      | Undefined \<Rightarrow>
          (case fillCriterias a criterias newStory of
             Inl e \<Rightarrow> Inl e
           | Inr s \<Rightarrow> fillKeys a rest (stories(key \<mapsto> s)))
      | Value s0 \<Rightarrow>
          (case fillCriterias a criterias s0 of
             Inl e \<Rightarrow> Inl e
           | Inr s \<Rightarrow> fillKeys a rest (stories(key \<mapsto> s))))"

definition fillValidationResults :: "err_obj \<Rightarrow> message \<Rightarrow> launcher \<Rightarrow> error + launcher" where
  "fillValidationResults a m st =
     (case cid_m m of
        None \<Rightarrow> Inl TypeError
      | Some c \<Rightarrow>
          (case specObj a of
             None \<Rightarrow> Inl TypeError
           | Some keys \<Rightarrow>
               (case validationResults st (getCidGroup c) of
                  None \<Rightarrow> (if keys = [] then Inr st else Inl TypeError)
                | Some stories \<Rightarrow>
                    (case fillKeys a keys stories of
                       Inl e \<Rightarrow> Inl e
                     | Inr stories1 \<Rightarrow>
                         Inr (st\<lparr>validationResults := (validationResults st)
                               (getCidGroup c \<mapsto> stories1)\<rparr>)))))"

text \<open>
  A stack that does not begin with \<open>at\<close> loses its first line:
  \<open>if (stack.trim().indexOf('at') !== 0) { lines = stack.split('\n'); lines.shift();
  stack = lines.join('\n') }\<close>.
\<close>

definition withoutStackHead :: "string \<Rightarrow> string" where
  "withoutStackHead s =
     (if indexOf (trim s) ''at'' \<noteq> 0 then join_js [nl] (tl (split_js nl s)) else s)"

text \<open>
  \<open>handleAssertion\<close> changes the assertion (its stack), the message and the
  validation results; it returns all three.
\<close>

definition handleAssertion ::
  "err_obj \<Rightarrow> message \<Rightarrow> launcher \<Rightarrow> error + (err_obj \<times> message \<times> launcher)" where
  "handleAssertion a m st =
     (case stack a of
        None \<Rightarrow> Inl TypeError
      | Some s \<Rightarrow>
          (let a1 = a\<lparr>stack := Some (withoutStackHead s)\<rparr>
           in case (case specObj a1 of None \<Rightarrow> Inr st | Some keys \<Rightarrow> fillValidationResults a1 m st) of
                Inl e \<Rightarrow> Inl e
              | Inr st1 \<Rightarrow>
                  (case err m of
                     None \<Rightarrow> Inl TypeError
                   | Some e \<Rightarrow>
                       (case errs m of
                          None \<Rightarrow> Inl TypeError
                        | Some es \<Rightarrow>
                            Inr (a1,
                                 m\<lparr>err := Some (e\<lparr>message := Some (toStr (message e) @ toStr (message a1) @ [nl, nl]),
                                                   stack := Some (toStr (stack e) @ toStr (stack a1) @ [nl, nl])\<rparr>),
                                   errs := Some (es @ [a1])\<rparr>,
                                 st1)))))"

fun handleAssertions ::
  "err_obj list \<Rightarrow> message \<Rightarrow> launcher \<Rightarrow> error + (err_obj list \<times> message \<times> launcher)" where
  "handleAssertions [] m st = Inr ([], m, st)"
| "handleAssertions (a # rest) m st =
     (case handleAssertion a m st of
        Inl e \<Rightarrow> Inl e
      | Inr (a1, m1, st1) \<Rightarrow>
          (case handleAssertions rest m1 st1 of
             Inl e \<Rightarrow> Inl e
           | Inr (rest1, m2, st2) \<Rightarrow> Inr (a1 # rest1, m2, st2)))"

text \<open>\<open>// remove last \n\<close>\<close>

definition removeLastNl :: "string \<Rightarrow> string" where
  "removeLastNl s = (let i = lastIndexOf s nl in if 0 < i then take (nat i) s else s)"

subsection \<open>Messages of the first phase\<close>

text \<open>
  The \<open>if\<close> blocks that \<open>messageHandler\<close> runs one after the other while
  \<open>finishedTests\<close> is not set, each on the message and the launcher the blocks
  before it have left; \<open>c\<close> is the \<open>cid\<close> of the message.
\<close>

definition currentStackBlock :: "runner_id \<Rightarrow> message \<times> launcher \<Rightarrow> error + (message \<times> launcher)" where
  "currentStackBlock c ms =
     (case ms of (m, st) \<Rightarrow>
        if event m = ''runner:currentStack'' \<and> \<not> stackStoreLocks st c
        then Inr (m, st\<lparr>stackStore := (stackStore st)(c := stack_m m),
                         waitUntilErrors := (if name m = Some ''waitUntil''
                                             then (waitUntilErrors st)(c := stack_m m)
                                             else waitUntilErrors st)\<rparr>)
        else Inr (m, st))"

definition afterCommandBlock :: "runner_id \<Rightarrow> message \<times> launcher \<Rightarrow> error + (message \<times> launcher)" where
  "afterCommandBlock c ms =
     (case ms of (m, st) \<Rightarrow>
        if event m = ''runner:aftercommand''
        then (if err m \<noteq> None
              then Inr (m, st\<lparr>stackStoreLocks := (stackStoreLocks st)(c := True),
                               stackStore := (if command m = Some ''waitUntil''
                                                 \<or> truthy (waitUntilErrors st c)
                                              then (stackStore st)(c := waitUntilErrors st c)
                                              else stackStore st)\<rparr>)
              else if command m = Some ''waitUntil''
              then Inr (m, st\<lparr>waitUntilErrors := (waitUntilErrors st)(c := None)\<rparr>)
              else Inr (m, st))
        else Inr (m, st))"

definition testStartBlock :: "runner_id \<Rightarrow> message \<times> launcher \<Rightarrow> error + (message \<times> launcher)" where
  "testStartBlock c ms =
     (case ms of (m, st) \<Rightarrow>
        if event m = ''test:start''
        then (case specs_m m of
                None \<Rightarrow> Inl TypeError
              | Some fs \<Rightarrow>
                  Inr (m\<lparr>testcase := (case fs of [] \<Rightarrow> None | f # _ \<Rightarrow> Some f)\<rparr>,
                       st\<lparr>validationStates := (validationStates st)(getCidGroup c \<mapsto> newValidationState),
                          stackStoreLocks := (stackStoreLocks st)(c := False),
                          stackStore := (stackStore st)(c := None),
                          waitUntilErrors := (waitUntilErrors st)(c := None),
                          stepErrors := (stepErrors st)(getCidGroup c \<mapsto> \<lparr>failed = [], broken = []\<rparr>)\<rparr>))
        else Inr (m, st))"

definition testFailBlock :: "runner_id \<Rightarrow> message \<times> launcher \<Rightarrow> error + (message \<times> launcher)" where
  "testFailBlock c ms =
     (case ms of (m, st) \<Rightarrow>
        if event m = ''test:fail''
        then (let g = getCidGroup c;
                  st1 = ensureResults g st;
                  m1 = m\<lparr>errs := Some [],
                          err := Some ((case err m of None \<Rightarrow> noErr | Some e \<Rightarrow> e)
                                         \<lparr>message := Some [], stack := Some []\<rparr>)\<rparr>
              in case stepErrors st1 g of
                   None \<Rightarrow> Inl TypeError
                 | Some se \<Rightarrow>
                     (case handleAssertions (failed se) m1 st1 of
                        Inl e \<Rightarrow> Inl e
                      | Inr (failed1, m2, st2) \<Rightarrow>
                          (case handleAssertions (broken se) m2 st2 of
                             Inl e \<Rightarrow> Inl e
                           | Inr (broken1, m3, st3) \<Rightarrow>
                               (case err m3 of
                                  None \<Rightarrow> Inl TypeError
                                | Some e \<Rightarrow>
                                    Inr (m3\<lparr>err := Some (e\<lparr>message := Some (removeLastNl (toStr (message e))),
                                                            stack := Some (removeLastNl (toStr (stack e)))\<rparr>),
                                            event := (if 0 < length broken1 then ''test:broken''
                                                      else event m3)\<rparr>,
                                         st3\<lparr>stepErrors := (stepErrors st3)
                                               (g \<mapsto> \<lparr>failed = failed1, broken = broken1\<rparr>)\<rparr>)))))
        else Inr (m, st))"

definition anyStepBlock :: "runner_id \<Rightarrow> message \<times> launcher \<Rightarrow> error + (message \<times> launcher)" where
  "anyStepBlock c ms =
     (case ms of (m, st) \<Rightarrow>
        if 0 \<le> indexOf (event m) ''step:''
        then (let g = getCidGroup c;
                  ss = (case stepStates st g of
                          None \<Rightarrow> \<lparr>stepLevel = 0, levelStatus = [], minusOne = None\<rparr>
                        | Some s \<Rightarrow> s)
              in Inr (m, st\<lparr>stepStates := (stepStates st)
                             (g \<mapsto> (if stepLevel ss = 0
                                     then ss\<lparr>levelStatus := [], minusOne := None\<rparr> else ss))\<rparr>))
        else Inr (m, st))"

definition stepStartBlock :: "runner_id \<Rightarrow> message \<times> launcher \<Rightarrow> error + (message \<times> launcher)" where
  "stepStartBlock c ms =
     (case ms of (m, st) \<Rightarrow>
        if event m = ''step:start''
        then (case stepStates st (getCidGroup c) of
                None \<Rightarrow> Inl TypeError
              | Some ss \<Rightarrow>
                  (let ss1 = ss\<lparr>stepLevel := stepLevel ss + 1\<rparr>
                   in Inr (m, st\<lparr>stackStoreLocks := (stackStoreLocks st)(c := False),
                                  stackStore := (stackStore st)(c := None),
                                  waitUntilErrors := (waitUntilErrors st)(c := None),
                                  stepStates := (stepStates st)
                                    (getCidGroup c \<mapsto>
                                       (if int (length (levelStatus ss1)) < stepLevel ss1
                                        then ss1\<lparr>levelStatus := levelStatus ss1 @ [Passed]\<rparr>
                                        else ss1))\<rparr>)))
        else Inr (m, st))"

definition stepFailedBlock :: "runner_id \<Rightarrow> message \<times> launcher \<Rightarrow> error + (message \<times> launcher)" where
  "stepFailedBlock c ms =
     (case ms of (m, st) \<Rightarrow>
        if event m = ''step:failed'' \<or> event m = ''step:broken''
        then (case assertion m of
                None \<Rightarrow> Inl TypeError
              | Some a \<Rightarrow>
                  (case getPatchedStack (fixEmptyMessage a) c st of
                     Inl e \<Rightarrow> Inl e
                   | Inr patched \<Rightarrow>
                       (let a1 = (fixEmptyMessage a)\<lparr>stack := Some patched\<rparr>
                        in case stepErrors st (getCidGroup c) of
                             None \<Rightarrow> Inl TypeError
                           | Some se \<Rightarrow>
                               Inr (m\<lparr>assertion := Some a1\<rparr>,
                                    st\<lparr>stepErrors := (stepErrors st)
                                         (getCidGroup c \<mapsto>
                                            (if event m = ''step:broken''
                                             then se\<lparr>broken := broken se @ [a1]\<rparr>
                                             else se\<lparr>failed := failed se @ [a1]\<rparr>))\<rparr>))))
        else Inr (m, st))"

text \<open>
  In \<open>step:end\<close>, \<open>levelStatus[levelStatus.length - 1]\<close> is the last element of
  the array, or its property \<open>"-1"\<close> when the array is empty.
\<close>

definition lastStatus :: "step_state \<Rightarrow> step_status option" where
  "lastStatus ss = (if levelStatus ss = [] then minusOne ss else Some (last (levelStatus ss)))"

definition setLastStatus :: "step_status \<Rightarrow> step_state \<Rightarrow> step_state" where
  "setLastStatus v ss =
     (if levelStatus ss = [] then ss\<lparr>minusOne := Some v\<rparr>
      else ss\<lparr>levelStatus := (levelStatus ss)[length (levelStatus ss) - 1 := v]\<rparr>)"

definition stepEndBlock :: "runner_id \<Rightarrow> message \<times> launcher \<Rightarrow> error + (message \<times> launcher)" where
  "stepEndBlock c ms =
     (case ms of (m, st) \<Rightarrow>
        if event m = ''step:end''
        then (let g = getCidGroup c
              in case stepStates st g of
                   None \<Rightarrow> Inl TypeError
                 | Some ss \<Rightarrow>
                     (let m1 = m\<lparr>status := (if int (length (levelStatus ss)) > stepLevel ss
                                              then lastStatus ss else Some Passed)\<rparr>
                      in case (case validationStates st g of
                                 None \<Rightarrow> None
                               | Some vs \<Rightarrow> (case assertionFailures vs of
                                              None \<Rightarrow> None
                                            | Some fs \<Rightarrow> Some (vs, fs))) of
                           None \<Rightarrow>
                             Inr (m1, st\<lparr>stepStates := (stepStates st)
                                         (g \<mapsto> ss\<lparr>stepLevel := stepLevel ss - 1\<rparr>)\<rparr>)
                         | Some (vs, fs) \<Rightarrow>
                             Inr (m1\<lparr>assertionFailures_m := Some fs,
                                     screenshots_m := ofOption (screenshots_v vs),
                                     status := Some Failed\<rparr>,
                                  st\<lparr>validationStates := (validationStates st)
                                        (g \<mapsto> vs\<lparr>assertionFailures := None, screenshots_v := None\<rparr>),
                                     stepStates := (stepStates st)
                                        (g \<mapsto> (setLastStatus Failed ss)
                                               \<lparr>stepLevel := stepLevel ss - 1\<rparr>)\<rparr>)))
        else Inr (m, st))"

subsection \<open>Validation events\<close>

text \<open>
  \<open>if (!(message in shots)) shots[message] = []\<close>, then the push of the screenshot
  when it has a file name and an id. A message that \<open>in\<close> finds only as an
  inherited member gets no array, and the push on the native value throws.
\<close>

definition pushScreenshot ::
  "err_obj \<Rightarrow> (string \<rightharpoonup> screenshot list) \<Rightarrow> error + (string \<rightharpoonup> screenshot list)" where
  "pushScreenshot a shots =
     (let k = toStr (message a);
          both = (truthy (screenshotFilename a) \<and> truthy (screenshotId a));
          shot = (toStr (screenshotFilename a), toStr (screenshotId a))
      in case get shots k of
           Native \<Rightarrow> if both then Inl TypeError else Inr shots
         | Undefined \<Rightarrow> Inr (shots(k \<mapsto> (if both then [shot] else [])))
         | Value old \<Rightarrow> Inr (shots(k \<mapsto> (if both then old @ [shot] else old))))"

text \<open>
  The screenshots of a story under a criteria. When \<open>in\<close> finds the criteria only as
  an inherited member, \<open>story.screenshots[criteria]\<close> is a native object, and the
  launcher tests whether the message of the assertion is a property of that object and
  sets it if not: the model ends here with \<open>NativeProperty\<close>.
\<close>

definition storyScreenshot :: "err_obj \<Rightarrow> string \<Rightarrow> story \<Rightarrow> error + story" where
  "storyScreenshot a criteria s =
     (case get (screenshots s) criteria of
        Native \<Rightarrow> Inl NativeProperty
      | Undefined \<Rightarrow>
          (case pushScreenshot a Map.empty of
             Inl e \<Rightarrow> Inl e
           | Inr sh \<Rightarrow> Inr (s\<lparr>screenshots := (screenshots s)(criteria \<mapsto> sh)\<rparr>))
      | Value sh0 \<Rightarrow>
          (case pushScreenshot a sh0 of
             Inl e \<Rightarrow> Inl e
           | Inr sh \<Rightarrow> Inr (s\<lparr>screenshots := (screenshots s)(criteria \<mapsto> sh)\<rparr>)))"

definition pushSuccess :: "err_obj \<Rightarrow> string \<Rightarrow> story \<Rightarrow> story" where
  "pushSuccess a criteria s =
     s\<lparr>successes := (successes s)
          (criteria \<mapsto> (case successes s criteria of None \<Rightarrow> [] | Some l \<Rightarrow> l)
             @ [noErr\<lparr>matcherName := matcherName a, actual := actual a,
                      expected := expected a\<rparr>])\<rparr>"

text \<open>
  One criteria of a successful validation, for the story that
  \<open>validationResults[group][key]\<close> is. A native value in the place of the story has
  no \<open>successes\<close> for \<open>in\<close> to look into, and one in the place of the array
  of the criteria has no \<open>push\<close>.
\<close>

definition validateSuccess :: "runner_id \<Rightarrow> string \<Rightarrow> err_obj \<Rightarrow> string \<Rightarrow> launcher \<Rightarrow> error + launcher" where
  "validateSuccess c key a criteria st =
     (let g = getCidGroup c
      in case validationResults st g of
           None \<Rightarrow> Inl TypeError
         | Some stories \<Rightarrow>
             (case get stories key of
                Value s \<Rightarrow>
                  (case get (successes s) criteria of
                     Native \<Rightarrow> Inl TypeError
                   | Undefined \<Rightarrow>
                       Inr (st\<lparr>validationResults := (validationResults st)
                             (g \<mapsto> stories(key \<mapsto> pushSuccess a criteria s))\<rparr>)
                   | Value l \<Rightarrow>
                       Inr (st\<lparr>validationResults := (validationResults st)
                             (g \<mapsto> stories(key \<mapsto> pushSuccess a criteria s))\<rparr>))
              | Native \<Rightarrow> Inl TypeError
              | Undefined \<Rightarrow> Inl TypeError))"

fun validateSuccesses :: "runner_id \<Rightarrow> string \<Rightarrow> err_obj \<Rightarrow> string list \<Rightarrow> launcher \<Rightarrow> error + launcher" where
  "validateSuccesses c key a [] st = Inr st"
| "validateSuccesses c key a (criteria # rest) st =
     (case validateSuccess c key a criteria st of
        Inl e \<Rightarrow> Inl e
      | Inr st1 \<Rightarrow> validateSuccesses c key a rest st1)"

text \<open>
  One criteria of a failed validation. The loop pushes \<open>m.assertion\<close> itself on
  \<open>assertionFailures\<close> and patches its stack in every round, so the \<open>k\<close>
  entries that earlier rounds of this message have pushed are this same object: they
  change with it.
\<close>

definition validateFailure ::
  "runner_id \<Rightarrow> string \<Rightarrow> string \<Rightarrow> err_obj \<times> nat \<times> launcher \<Rightarrow> error + (err_obj \<times> nat \<times> launcher)" where
  "validateFailure c key criteria aks =
     (case aks of (a, k, st) \<Rightarrow>
        (let g = getCidGroup c
         in case validationResults st g of
              None \<Rightarrow> Inl TypeError
            | Some stories \<Rightarrow>
                (case get stories key of
                   Undefined \<Rightarrow> Inl TypeError
                 | Native \<Rightarrow> Inl TypeError
                 | Value s \<Rightarrow>
                     (let s1 = (if has criteria (failures s) then s
                                else s\<lparr>failures := (failures s)(criteria \<mapsto> [])\<rparr>);
                          vs = (case validationStates st g of
                                  None \<Rightarrow> newValidationState | Some v \<Rightarrow> v);
                          fs = (case assertionFailures vs of None \<Rightarrow> [] | Some l \<Rightarrow> l);
                          shots = (case screenshots_v vs of None \<Rightarrow> Map.empty | Some sh \<Rightarrow> sh)
                      in case (if truthy (screenshotFilename a) then storyScreenshot a criteria s1
                               else Inr s1) of
                           Inl e \<Rightarrow> Inl e
                         | Inr s2 \<Rightarrow>
                             (case pushScreenshot a shots of
                                Inl e \<Rightarrow> Inl e
                              | Inr shots1 \<Rightarrow>
                                  (case getPatchedStack a c st of
                                     Inl e \<Rightarrow> Inl e
                                   | Inr patched \<Rightarrow>
                                       (let a1 = a\<lparr>stack := Some patched\<rparr>
                                        in Inr (a1, Suc k,
                                                st\<lparr>validationResults := (validationResults st)
                                                      (g \<mapsto> stories(key \<mapsto> s2)),
                                                   validationStates := (validationStates st)
                                                      (g \<mapsto> vs\<lparr>assertionFailures :=
                                                                Some (take (length fs - k) fs @ replicate (Suc k) a1),
                                                              screenshots_v := Some shots1\<rparr>)\<rparr>))))))))"

fun validateFailures ::
  "runner_id \<Rightarrow> string \<Rightarrow> string list \<Rightarrow> err_obj \<times> nat \<times> launcher \<Rightarrow> error + (err_obj \<times> nat \<times> launcher)" where
  "validateFailures c key [] aks = Inr aks"
| "validateFailures c key (criteria # rest) aks =
     (case validateFailure c key criteria aks of
        Inl e \<Rightarrow> Inl e
      | Inr aks1 \<Rightarrow> validateFailures c key rest aks1)"

text \<open>
  The loop over the keys of \<open>m.assertion.specObj\<close>. A key that \<open>in\<close> finds in
  the results of the group, as a property of their own or as an inherited member, gets no
  new story.
\<close>

fun validateKeys ::
  "config \<Rightarrow> runner_id \<Rightarrow> message \<Rightarrow> (string \<times> string list) list \<Rightarrow> err_obj \<times> nat \<times> launcher
     \<Rightarrow> error + (err_obj \<times> nat \<times> launcher)" where
  "validateKeys cfg c m [] aks = Inr aks"
| "validateKeys cfg c m ((key, criterias) # rest) aks =
     (case aks of (a, k, st) \<Rightarrow>
        (let g = getCidGroup c
         in case validationResults st g of
              None \<Rightarrow> Inl TypeError
            | Some stories \<Rightarrow>
                (let st1 = (if has key stories then st
                            else st\<lparr>validationResults := (validationResults st)
                                    (g \<mapsto> stories(key \<mapsto> newStory))\<rparr>)
                 in if event m = ''validate:success''
                    then (case validateSuccesses c key a criterias st1 of
                            Inl e \<Rightarrow> Inl e
                          | Inr st2 \<Rightarrow> validateKeys cfg c m rest (a, k, st2))
                    else (case validateFailures c key criterias (a, k, st1) of
                            Inl e \<Rightarrow> Inl e
                          | Inr (a1, k1, st2) \<Rightarrow>
                              validateKeys cfg c m rest
                                (a1, k1,
                                 if reportErrorsInstantly cfg
                                 then report (m\<lparr>assertion := Some a1\<rparr>) st2 else st2)))))"

definition validateBlock :: "config \<Rightarrow> runner_id \<Rightarrow> message \<times> launcher \<Rightarrow> error + (message \<times> launcher)" where
  "validateBlock cfg c ms =
     (case ms of (m, st) \<Rightarrow>
        if event m = ''validate:success'' \<or> event m = ''validate:failure''
           \<or> event m = ''validate:broken''
        then (case assertion m of
                None \<Rightarrow> Inl TypeError
              | Some a \<Rightarrow>
                  (let g = getCidGroup c;
                       st1 = ensureResults g st
                   in case specObj a of
                        None \<Rightarrow> Inl TypeError
                      | Some keys \<Rightarrow>
                          (case validateKeys cfg c m keys (fixEmptyMessage a, 0, st1) of
                             Inl e \<Rightarrow> Inl e
                           | Inr (a1, k, st2) \<Rightarrow> Inr (m\<lparr>assertion := Some a1\<rparr>, st2))))
        else Inr (m, report m st))"

subsection \<open>\<open>messageHandler\<close>\<close>

fun runBlocks ::
  "(message \<times> launcher \<Rightarrow> error + (message \<times> launcher)) list \<Rightarrow> message \<times> launcher
     \<Rightarrow> error + (message \<times> launcher)" where
  "runBlocks [] ms = Inr ms"
| "runBlocks (block # rest) ms =
     (case block ms of Inl e \<Rightarrow> Inl e | Inr ms1 \<Rightarrow> runBlocks rest ms1)"

definition executionMessage :: "config \<Rightarrow> runner_id \<Rightarrow> message \<Rightarrow> launcher \<Rightarrow> error + (message \<times> launcher)" where
  "executionMessage cfg c m st =
     runBlocks [currentStackBlock c, afterCommandBlock c, testStartBlock c, testFailBlock c,
                anyStepBlock c, stepStartBlock c, stepFailedBlock c, stepEndBlock c,
                validateBlock cfg c] (m, st)"

text \<open>
  The decoding of the title of a \<open>test:\<close> event:
  \<open>if (m.title) { testData = JSON.parse(m.title); m.title = testData.title;
  m.metadata = testData.metadata }\<close>. The properties of \<open>null\<close> cannot be read.
\<close>

definition decodeTitle :: "message \<Rightarrow> error + message" where
  "decodeTitle m =
     (if indexOf (event m) ''test:'' = 0 \<and> truthy (title m)
      then (case titleJson m of
              NotJson \<Rightarrow> Inl SyntaxError
            | JsonNull \<Rightarrow> Inl TypeError
            | JsonValue t md \<Rightarrow> Inr (m\<lparr>title := t, metadata := md\<rparr>))
      else Inr m)"

text \<open>
  \<open>messageHandler\<close>, for a message that arrives on the channel of the worker
  \<open>channelCid\<close>. Before the handling by phase it sets \<open>hasStartedAnyProcess\<close>,
  gives a message without \<open>cid\<close> the one of the channel, hands a
  \<open>runner:error\<close> to the reporters as \<open>error\<close>, and decodes the title. A
  \<open>uid:request\<close> reads \<open>this.uidStore\<close>, which the constructor does not set: it
  throws.
\<close>

definition messageHandler :: "config \<Rightarrow> runner_id \<Rightarrow> message \<Rightarrow> launcher \<Rightarrow> error + launcher" where
  "messageHandler cfg channelCid m0 st0 =
     (let c = (case cid_m m0 of None \<Rightarrow> channelCid | Some c0 \<Rightarrow> c0);
          m1 = m0\<lparr>cid_m := Some c\<rparr>;
          st1 = st0\<lparr>hasStartedAnyProcess := True\<rparr>;
          st2 = (if event m1 = ''runner:error''
                 then st1\<lparr>reported := reported st1 @ [Report ''error'' m1]\<rparr> else st1)
      in if event m1 = ''uid:request'' then Inl TypeError
         else (case decodeTitle m1 of
                 Inl e \<Rightarrow> Inl e
               | Inr m \<Rightarrow>
                   if finishedTests st2
                   then (case validationMessage c m st2 of
                           Inl e \<Rightarrow> Inl e
                         | Inr (m2, st3) \<Rightarrow> Inr (report m2 st3))
                   else (case executionMessage cfg c m st2 of
                           Inl e \<Rightarrow> Inl e
                         | Inr (m2, st3) \<Rightarrow> Inr st3)))"

subsection \<open>The states of a phase\<close>

text \<open>
  The launchers that a phase can pass through: it starts with the schedule that
  \<open>run\<close> builds from the capabilities; then come passes of a dispatch loop, worker
  exits (the exit is recorded, the instance is released, the promise may be resolved),
  interrupts and messages.
\<close>

inductive reachable :: "config \<Rightarrow> capability list \<Rightarrow> launcher \<Rightarrow> bool"
  for cfg :: config and capabilities :: "capability list" where
  first_phase: "schedule st = testcaseSchedule cfg capabilities \<Longrightarrow> reachable cfg capabilities st"
| second_phase: "schedule st = specSchedule cfg capabilities \<Longrightarrow> reachable cfg capabilities st"
| testcases_pass:
    "reachable cfg capabilities st \<Longrightarrow> getNumberOfRunningInstances st < maxInstances cfg \<Longrightarrow>
     testcasesPass cfg st = (st', b) \<Longrightarrow> reachable cfg capabilities st'"
| specs_pass:
    "reachable cfg capabilities st \<Longrightarrow> getNumberOfRunningInstances st < maxInstances cfg \<Longrightarrow>
     specsPass cfg st = (st', b) \<Longrightarrow> reachable cfg capabilities st'"
| exit_recorded: "reachable cfg capabilities st \<Longrightarrow> reachable cfg capabilities (recordExit code st)"
| instance_released:
    "reachable cfg capabilities st \<Longrightarrow> i < length (schedule st) \<Longrightarrow>
     reachable cfg capabilities (releaseInstance i st)"
| run_resolved: "reachable cfg capabilities st \<Longrightarrow> reachable cfg capabilities (fst (resolveRun st))"
| interrupt: "reachable cfg capabilities st \<Longrightarrow> reachable cfg capabilities (fst (exitHandler st))"
| message_handled:
    "reachable cfg capabilities st \<Longrightarrow> messageHandler cfg c m st = Inr st' \<Longrightarrow>
     reachable cfg capabilities st'"

text \<open>The messages of one worker, handled one after the other.\<close>

fun handleMessages :: "config \<Rightarrow> runner_id \<Rightarrow> message list \<Rightarrow> launcher \<Rightarrow> error + launcher" where
  "handleMessages cfg c [] st = Inr st"
| "handleMessages cfg c (m # ms) st =
     (case messageHandler cfg c m st of
        Inl e \<Rightarrow> Inl e
      | Inr st1 \<Rightarrow> handleMessages cfg c ms st1)"

subsection \<open>Notions used in the properties\<close>

text \<open>The condition that both dispatch functions compute after their loop.\<close>

definition drainedTestcases :: "launcher \<Rightarrow> bool" where
  "drainedTestcases st =
     ((\<forall>a\<in>set (schedule st). testcases a = []) \<and> getNumberOfRunningInstances st = 0)"

definition drainedSpecs :: "launcher \<Rightarrow> bool" where
  "drainedSpecs st =
     ((\<forall>a\<in>set (schedule st). specs a = []) \<and> getNumberOfRunningInstances st = 0)"

definition drained :: "launcher \<Rightarrow> bool" where
  "drained st =
     (case endHandlerRunFunc st of RunTestcases \<Rightarrow> drainedTestcases st | RunSpecs \<Rightarrow> drainedSpecs st)"

text \<open>The two counters of every entry, and their sum.\<close>

definition counters :: "launcher \<Rightarrow> (int \<times> int) list" where
  "counters st = map (\<lambda>a. (availableInstances a, runningInstances a)) (schedule st)"

definition slots :: "launcher \<Rightarrow> int list" where
  "slots st = map (\<lambda>a. availableInstances a + runningInstances a) (schedule st)"

text \<open>
  The bucket of failures and the bucket of successes that the validation results of a
  group hold for a story and a criteria; \<open>None\<close> when there is none.
\<close>

definition failuresBucket :: "launcher \<Rightarrow> nat \<Rightarrow> string \<Rightarrow> string \<Rightarrow> err_obj list option" where
  "failuresBucket st g s cr =
     (case validationResults st g of
        None \<Rightarrow> None
      | Some stories \<Rightarrow> (case stories s of None \<Rightarrow> None | Some st0 \<Rightarrow> failures st0 cr))"

definition successesBucket :: "launcher \<Rightarrow> nat \<Rightarrow> string \<Rightarrow> string \<Rightarrow> err_obj list option" where
  "successesBucket st g s cr =
     (case validationResults st g of
        None \<Rightarrow> None
      | Some stories \<Rightarrow> (case stories s of None \<Rightarrow> None | Some st0 \<Rightarrow> successes st0 cr))"



text \<open>The \<open>cid\<close> that \<open>messageHandler\<close> gives a message.\<close>

definition cidOf :: "runner_id \<Rightarrow> message \<Rightarrow> runner_id" where
  "cidOf channelCid m = (case cid_m m of None \<Rightarrow> channelCid | Some c \<Rightarrow> c)"

text \<open>The verdict of \<open>evaluateValidations\<close>, read off the two buckets.\<close>

definition verdict :: "err_obj list option \<Rightarrow> err_obj list option \<Rightarrow> error + string" where
  "verdict fs ss =
     (case fs of
        Some l \<Rightarrow> if l = [] then Inl TypeError
                  else Inr (if list_ex (\<lambda>e. matcherName e = None) l then ''broken'' else ''fail'')
      | None \<Rightarrow> (case ss of Some l \<Rightarrow> Inr ''pass'' | None \<Rightarrow> Inr ''unvalidated''))"


text \<open>
  The events handed to the reporters with the status of their message, in the order of
  the calls.
\<close>

definition reportedStatuses :: "launcher \<Rightarrow> (string \<times> step_status option) list" where
  "reportedStatuses st =
     map (\<lambda>r. case r of Report ev m \<Rightarrow> (ev, status m)
                | StartSpecs c \<Rightarrow> (''startSpecs'', None)
                | End s e \<Rightarrow> (''end'', None)) (reported st)"

text \<open>
  A message whose title, if it has one, \<open>JSON.parse\<close> decodes to a value that is not
  \<open>null\<close>.
\<close>

definition decodable :: "message \<Rightarrow> bool" where
  "decodable m =
     (case titleJson m of JsonValue t md \<Rightarrow> True | NotJson \<Rightarrow> \<not> truthy (title m)
      | JsonNull \<Rightarrow> \<not> truthy (title m))"


text \<open>The number of workers started so far for the capability with id \<open>i\<close>.\<close>

definition started :: "launcher \<Rightarrow> nat \<Rightarrow> int" where
  "started st i = int (length (filter (\<lambda>p. getCidGroup (fst p) = i) (processes st)))"

text \<open>
  \<open>run\<close> gives every entry of the schedule its position as \<open>cid\<close>; the first
  part of a runner id is that \<open>cid\<close>, and \<open>endHandler\<close> reads it as a position.
\<close>

definition indexed :: "launcher \<Rightarrow> bool" where
  "indexed st = (map cid (schedule st) = [0..<length (schedule st)])"

text \<open>
  For every entry, \<open>availableInstances\<close> plus the workers started for it and
  \<open>runningInstances\<close> minus the workers started for it.
\<close>

definition ledger :: "launcher \<Rightarrow> (int \<times> int) list" where
  "ledger st =
     map (\<lambda>a. (availableInstances a + started st (cid a), runningInstances a - started st (cid a)))
       (schedule st)"




subsection \<open>Example configurations and states\<close>

definition exampleConfig :: config where
  "exampleConfig = \<lparr>maxInstances = 2, maxInstancesPerCapability = 2, bail = None,
     multiremote = False, reportErrorsInstantly = False\<rparr>"

definition bailConfig :: config where
  "bailConfig = exampleConfig\<lparr>bail := Some 1\<rparr>"

definition noCapability :: capability where
  "noCapability = \<lparr>cap_maxInstances = None, cap_testcases = [], cap_specs = []\<rparr>"

definition twoCapabilities :: "capability list" where
  "twoCapabilities =
     [\<lparr>cap_maxInstances = Some 2, cap_testcases = [''ta1'', ''ta2''], cap_specs = [''a1'', ''a2'']\<rparr>,
      \<lparr>cap_maxInstances = None, cap_testcases = [''tb1'', ''tb2''], cap_specs = [''b1'', ''b2'']\<rparr>]"

text \<open>The launcher at the start of the first phase and of the second phase.\<close>

definition startOfTestcases :: launcher where
  "startOfTestcases = newLauncher\<lparr>schedule := testcaseSchedule exampleConfig twoCapabilities\<rparr>"

definition startOfSpecs :: launcher where
  "startOfSpecs = newLauncher\<lparr>schedule := specSchedule exampleConfig twoCapabilities,
     finishedTests := True, endHandlerRunFunc := RunSpecs\<rparr>"

definition oneTestcase :: launcher where
  "oneTestcase = newLauncher\<lparr>schedule := [\<lparr>cid = 0, caps = noCapability,
       testcases = [''a''], specs = [], availableInstances = 1, runningInstances = 0\<rparr>]\<rparr>"

definition oneSpec :: launcher where
  "oneSpec = newLauncher\<lparr>schedule := [\<lparr>cid = 0, caps = noCapability,
       testcases = [], specs = [''s''], availableInstances = 1, runningInstances = 0\<rparr>],
     finishedTests := True, endHandlerRunFunc := RunSpecs\<rparr>"

text \<open>One worker runs, one spec is pending, and the interrupt routine has been triggered.\<close>

definition interrupted :: launcher where
  "interrupted = newLauncher\<lparr>schedule := [\<lparr>cid = 0, caps = noCapability,
       testcases = [], specs = [''s''], availableInstances = 0, runningInstances = 1\<rparr>],
     hasTriggeredExitRoutine := True, hasStartedAnyProcess := True,
     finishedTests := True, endHandlerRunFunc := RunSpecs\<rparr>"

text \<open>One worker has failed, one spec is pending and no worker runs.\<close>

definition failedOnce :: launcher where
  "failedOnce = oneSpec\<lparr>runnerFailed := 1, exitCode := 1\<rparr>"

definition failedOnceTestcase :: launcher where
  "failedOnceTestcase = oneTestcase\<lparr>runnerFailed := 1, exitCode := 1\<rparr>"

text \<open>The last worker of the second phase runs and nothing is pending.\<close>

definition lastWorker :: launcher where
  "lastWorker = newLauncher\<lparr>schedule := [\<lparr>cid = 0, caps = noCapability,
       testcases = [], specs = [], availableInstances = 0, runningInstances = 1\<rparr>],
     hasStartedAnyProcess := True, finishedTests := True, endHandlerRunFunc := RunSpecs\<rparr>"

text \<open>
  Validation results of group 0 for story \<open>S1\<close>: criteria \<open>C1\<close> has a failed
  assertion of a matcher, \<open>C2\<close> a failure without a matcher, \<open>C4\<close> a success,
  and \<open>C3\<close> nothing. \<open>validating cr\<close> is a launcher of the second phase whose
  validation state of group 0 records story \<open>S1\<close> and criteria \<open>cr\<close>.
\<close>

definition exampleResults :: "string \<rightharpoonup> story" where
  "exampleResults =
     [''S1'' \<mapsto> newStory
        \<lparr>successes := [''C4'' \<mapsto> [noErr\<lparr>matcherName := Some ''toBe''\<rparr>]],
         failures := [''C1'' \<mapsto> [noErr\<lparr>matcherName := Some ''toBe'',
                                      message := Some ''expected 1 to be 2'',
                                      stack := Some ''at testcase (a.js:1:1)''\<rparr>],
                      ''C2'' \<mapsto> [noErr\<lparr>message := Some ''boom'',
                                      stack := Some ''at testcase (a.js:2:1)''\<rparr>]]\<rparr>]"

definition validating :: "string \<Rightarrow> launcher" where
  "validating cr = newLauncher
     \<lparr>finishedTests := True, endHandlerRunFunc := RunSpecs,
      validationResults := [0 \<mapsto> exampleResults],
      validationStates := [0 \<mapsto> \<lparr>storyId = Some ''S1'', criteriaId = Some cr,
                                  assertionFailures = None, screenshots_v = None\<rparr>]\<rparr>"

text \<open>
  The same launcher with a recorded story, and with a recorded criteria, that names a
  member of \<open>Object.prototype\<close>.
\<close>

definition recordedConstructor :: launcher where
  "recordedConstructor = (validating ''C3'')
     \<lparr>validationStates := [0 \<mapsto> \<lparr>storyId = Some ''constructor'', criteriaId = Some ''C3'',
                                  assertionFailures = None, screenshots_v = None\<rparr>]\<rparr>"

definition recordedToString :: launcher where
  "recordedToString = validating ''toString''"

text \<open>
  A \<open>test:pass\<close> of worker \<open>0-0\<close>. Its title is the JSON text \<open>{}\<close>, an
  object without \<open>title\<close> and \<open>metadata\<close>.
\<close>

definition testPass :: message where
  "testPass = noMessage\<lparr>event := ''test:pass'', cid_m := Some (0, 0),
     title := Some ''{}'', titleJson := JsonValue None None\<rparr>"

text \<open>
  The messages of steps from worker \<open>0-0\<close> in the first phase: the start and the
  end of a step, and a validation that fails inside a step.
\<close>

definition stepStart :: message where
  "stepStart = noMessage\<lparr>event := ''step:start'', cid_m := Some (0, 0)\<rparr>"

definition stepEnd :: message where
  "stepEnd = noMessage\<lparr>event := ''step:end'', cid_m := Some (0, 0)\<rparr>"

definition validateFails :: message where
  "validateFails = noMessage\<lparr>event := ''validate:failure'', cid_m := Some (0, 0),
     assertion := Some (noErr\<lparr>matcherName := Some ''toBe'', message := Some ''expected 1 to be 2'',
        stack := Some ''at testcase (a.js:1:1)'', specObj := Some [(''S1'', [''C1''])]\<rparr>)\<rparr>"

text \<open>
  Two tests with nested steps. In the first, step \<open>P\<close> has the children \<open>A\<close>
  and \<open>B\<close>: a validation fails in \<open>A\<close>, and \<open>B\<close> has a child \<open>G\<close>
  in which nothing fails. In the second, \<open>P\<close> has the children \<open>A\<close> and
  \<open>B\<close>: \<open>A\<close> has a child \<open>G\<close> in which a validation fails, and
  \<open>B\<close> has no child and nothing fails in it.
\<close>

definition failedChild :: "message list" where
  "failedChild =
     [stepStart, stepStart, validateFails, stepEnd,
      stepStart, stepStart, stepEnd, stepEnd, stepEnd]"

definition failedGrandchild :: "message list" where
  "failedGrandchild =
     [stepStart, stepStart, stepStart, validateFails, stepEnd, stepEnd,
      stepStart, stepEnd, stepEnd]"









section \<open>Properties of the scheduler\<close>

subsection \<open>The passes and the loops\<close>

lemma testcasesPass_False:
  "testcasesPass cfg st = (st', False) \<Longrightarrow>
     st' = st \<or> (\<not> bailFilter cfg st \<and> st' = clearTestcases st)"
  by (auto simp: testcasesPass_def Let_def split: list.splits if_splits)

lemma specsPass_False: "specsPass cfg st = (st', False) \<Longrightarrow> st' = st"
  by (auto simp: specsPass_def Let_def split: list.splits)

lemma length_testcasesPass:
  "testcasesPass cfg st = (st', b) \<Longrightarrow> length (schedule st') = length (schedule st)"
proof (cases b)
  case True
  assume "testcasesPass cfg st = (st', b)"
  with True show ?thesis by (auto dest!: testcasesPass_True)
next
  case False
  assume "testcasesPass cfg st = (st', b)"
  with False show ?thesis by (auto dest!: testcasesPass_False simp: clearTestcases_def)
qed

text \<open>
  An invariant of the loop: what holds before the loop and is kept by every pass holds
  after the loop.
\<close>

lemma testcasesLoop_invariant_aux:
  "P st \<Longrightarrow>
   (\<forall>s s' b. P s \<longrightarrow> getNumberOfRunningInstances s < maxInstances cfg \<longrightarrow>
           testcasesPass cfg s = (s', b) \<longrightarrow> P s') \<Longrightarrow>
   P (testcasesLoop cfg st)"
proof (induction cfg st rule: testcasesLoop.induct)
  case (1 cfg st)
  show ?case
  proof (cases "getNumberOfRunningInstances st < maxInstances cfg")
    case False
    with "1.prems" show ?thesis by (simp add: testcasesLoop.simps [of cfg st])
  next
    case True
    obtain st' b where p: "testcasesPass cfg st = (st', b)" by (cases "testcasesPass cfg st")
    have P': "P st'" using "1.prems" True p by blast
    show ?thesis
    proof (cases b)
      case True
      with p \<open>getNumberOfRunningInstances st < maxInstances cfg\<close> "1.IH" P' "1.prems"(2)
      show ?thesis by (simp add: testcasesLoop.simps [of cfg st])
    next
      case False
      with p \<open>getNumberOfRunningInstances st < maxInstances cfg\<close> P'
      show ?thesis by (simp add: testcasesLoop.simps [of cfg st])
    qed
  qed
qed

lemma testcasesLoop_invariant:
  assumes "P st"
    and "\<And>s s' b. P s \<Longrightarrow> getNumberOfRunningInstances s < maxInstances cfg \<Longrightarrow>
           testcasesPass cfg s = (s', b) \<Longrightarrow> P s'"
  shows "P (testcasesLoop cfg st)"
  using assms(1) by (rule testcasesLoop_invariant_aux) (use assms(2) in blast)

lemma specsLoop_invariant_aux:
  "P st \<Longrightarrow>
   (\<forall>s s' b. P s \<longrightarrow> getNumberOfRunningInstances s < maxInstances cfg \<longrightarrow>
           specsPass cfg s = (s', b) \<longrightarrow> P s') \<Longrightarrow>
   P (specsLoop cfg st)"
proof (induction cfg st rule: specsLoop.induct)
  case (1 cfg st)
  show ?case
  proof (cases "getNumberOfRunningInstances st < maxInstances cfg")
    case False
    with "1.prems" show ?thesis by (simp add: specsLoop.simps [of cfg st])
  next
    case True
    obtain st' b where p: "specsPass cfg st = (st', b)" by (cases "specsPass cfg st")
    have P': "P st'" using "1.prems" True p by blast
    show ?thesis
    proof (cases b)
      case True
      with p \<open>getNumberOfRunningInstances st < maxInstances cfg\<close> "1.IH" P' "1.prems"(2)
      show ?thesis by (simp add: specsLoop.simps [of cfg st])
    next
      case False
      with p \<open>getNumberOfRunningInstances st < maxInstances cfg\<close> P'
      show ?thesis by (simp add: specsLoop.simps [of cfg st])
    qed
  qed
qed

lemma specsLoop_invariant:
  assumes "P st"
    and "\<And>s s' b. P s \<Longrightarrow> getNumberOfRunningInstances s < maxInstances cfg \<Longrightarrow>
           specsPass cfg s = (s', b) \<Longrightarrow> P s'"
  shows "P (specsLoop cfg st)"
  using assms(1) by (rule specsLoop_invariant_aux) (use assms(2) in blast)

lemma length_testcasesLoop: "length (schedule (testcasesLoop cfg st)) = length (schedule st)"
  by (rule testcasesLoop_invariant [where P = "\<lambda>s. length (schedule s) = length (schedule st)"])
     (simp_all add: length_testcasesPass)

lemma getNumberOfTestcasesLeft_error:
  "(getNumberOfTestcasesLeft st = Inl TypeError) = (schedule st = [])"
  by (cases "schedule st") (simp_all add: getNumberOfTestcasesLeft_def reduce1_def)

lemma getNumberOfTestcasesLeft_throws:
  "getNumberOfTestcasesLeft st = Inl e \<Longrightarrow> e = TypeError"
  by (cases "schedule st") (simp_all add: getNumberOfTestcasesLeft_def reduce1_def)

lemma runTestcases_throws: "runTestcases cfg st = Inl e \<Longrightarrow> e = TypeError"
  by (auto simp: runTestcases_def Let_def split: if_splits sum.splits
        dest: getNumberOfTestcasesLeft_throws)

lemma sum_list_length_zero:
  "(sum_list (map (\<lambda>a. int (length (f a))) xs) = 0) = (\<forall>a\<in>set xs. f a = [])"
proof (induction xs)
  case Nil then show ?case by simp
next
  case (Cons x xs)
  have "0 \<le> sum_list (map (\<lambda>a. int (length (f a))) xs)" by (rule sum_list_nonneg) auto
  with Cons show ?case by auto
qed

lemma specsLeft_zero:
  "(getNumberOfSpecsLeft st = 0) = (\<forall>a\<in>set (schedule st). specs a = [])"
  by (simp add: getNumberOfSpecsLeft_def foldl_plus_int sum_list_length_zero)

lemma testcasesLeft_zero:
  assumes "getNumberOfTestcasesLeft st = Inr n"
  shows "(n = 0) = (\<forall>a\<in>set (schedule st). testcases a = [])"
proof (cases "schedule st")
  case Nil with assms show ?thesis by (simp add: getNumberOfTestcasesLeft_def reduce1_def)
next
  case (Cons x xs)
  with assms have "n = sum_list (map (\<lambda>a. int (length (testcases a))) (schedule st))"
    by (auto simp: getNumberOfTestcasesLeft_def reduce1_def foldl_plus_int)
  then show ?thesis using sum_list_length_zero [of testcases "schedule st"] by simp
qed

text \<open>Fields that the loops leave alone.\<close>

lemma testcasesPass_flags:
  assumes "testcasesPass cfg st = (st', b)"
  shows "hasTriggeredExitRoutine st' = hasTriggeredExitRoutine st
     \<and> endHandlerRunFunc st' = endHandlerRunFunc st
     \<and> runnerFailed st' = runnerFailed st \<and> exitCode st' = exitCode st"
proof (cases "schedulableTestcases cfg st")
  case Nil
  with assms show ?thesis
    by (cases "bailFilter cfg st \<or> schedule st = []")
       (auto simp: testcasesPass_def clearTestcases_def)
next
  case (Cons p rest)
  obtain i a where "p = (i, a)" by (cases p)
  with Cons assms show ?thesis
    by (cases "bailFilter cfg st \<or> schedule st = []")
       (auto simp: testcasesPass_def Let_def clearTestcases_def startRunnerInstance_def
          getRunnerId_def)
qed

lemma specsPass_flags:
  assumes "specsPass cfg st = (st', b)"
  shows "hasTriggeredExitRoutine st' = hasTriggeredExitRoutine st
     \<and> endHandlerRunFunc st' = endHandlerRunFunc st
     \<and> runnerFailed st' = runnerFailed st \<and> exitCode st' = exitCode st"
proof (cases "schedulableSpecs cfg st")
  case Nil
  with assms show ?thesis by (auto simp: specsPass_def)
next
  case (Cons p rest)
  obtain i a where "p = (i, a)" by (cases p)
  with Cons assms show ?thesis
    by (auto simp: specsPass_def Let_def startValidatorInstance_def getRunnerId_def)
qed

lemma testcasesLoop_flags:
  "hasTriggeredExitRoutine (testcasesLoop cfg st) = hasTriggeredExitRoutine st
   \<and> endHandlerRunFunc (testcasesLoop cfg st) = endHandlerRunFunc st
   \<and> runnerFailed (testcasesLoop cfg st) = runnerFailed st
   \<and> exitCode (testcasesLoop cfg st) = exitCode st"
  by (rule testcasesLoop_invariant [where P = "\<lambda>s. hasTriggeredExitRoutine s = hasTriggeredExitRoutine st
      \<and> endHandlerRunFunc s = endHandlerRunFunc st \<and> runnerFailed s = runnerFailed st
      \<and> exitCode s = exitCode st"])
     (auto dest: testcasesPass_flags)

lemma specsLoop_flags:
  "hasTriggeredExitRoutine (specsLoop cfg st) = hasTriggeredExitRoutine st
   \<and> endHandlerRunFunc (specsLoop cfg st) = endHandlerRunFunc st
   \<and> runnerFailed (specsLoop cfg st) = runnerFailed st
   \<and> exitCode (specsLoop cfg st) = exitCode st"
  by (rule specsLoop_invariant [where P = "\<lambda>s. hasTriggeredExitRoutine s = hasTriggeredExitRoutine st
      \<and> endHandlerRunFunc s = endHandlerRunFunc st \<and> runnerFailed s = runnerFailed st
      \<and> exitCode s = exitCode st"])
     (auto dest: specsPass_flags)

lemma runSpecs_drained:
  "\<not> hasTriggeredExitRoutine st \<Longrightarrow> runSpecs cfg st = (st', b) \<Longrightarrow> b = drainedSpecs st'"
  by (auto simp: runSpecs_def Let_def drainedSpecs_def specsLeft_zero)

lemma runTestcases_drained:
  "\<not> hasTriggeredExitRoutine st \<Longrightarrow> runTestcases cfg st = Inr (st', b) \<Longrightarrow> b = drainedTestcases st'"
  by (auto simp: runTestcases_def Let_def drainedTestcases_def testcasesLeft_zero
        split: if_splits sum.splits)

lemma runTestcases_state:
  "runTestcases cfg st = Inr (st', b) \<Longrightarrow>
     st' = (if hasTriggeredExitRoutine st then st else testcasesLoop cfg st)"
  by (cases "hasTriggeredExitRoutine st")
     (auto simp: runTestcases_def Let_def split: if_splits sum.splits)

lemma runSpecs_state:
  "runSpecs cfg st = (st', b) \<Longrightarrow>
     st' = (if hasTriggeredExitRoutine st then st else specsLoop cfg st)"
  by (cases "hasTriggeredExitRoutine st") (auto simp: runSpecs_def Let_def)

lemma callRunFunc_drained:
  assumes "\<not> hasTriggeredExitRoutine st" and "callRunFunc cfg st = Inr (st', b)"
  shows "b = drained st' \<and> endHandlerRunFunc st' = endHandlerRunFunc st"
proof (cases "endHandlerRunFunc st")
  case RunTestcases
  with assms have r: "runTestcases cfg st = Inr (st', b)" by (simp add: callRunFunc_def)
  then have "endHandlerRunFunc st' = endHandlerRunFunc st"
    using testcasesLoop_flags [of cfg st] runTestcases_state [OF r] by (simp split: if_splits)
  with runTestcases_drained [OF assms(1) r] RunTestcases show ?thesis by (simp add: drained_def)
next
  case RunSpecs
  with assms have r: "runSpecs cfg st = (st', b)" by (simp add: callRunFunc_def)
  then have "endHandlerRunFunc st' = endHandlerRunFunc st"
    using specsLoop_flags [of cfg st] runSpecs_state [OF r] by (simp split: if_splits)
  with runSpecs_drained [OF assms(1) r] RunSpecs show ?thesis by (simp add: drained_def)
qed

lemma drained_resolveRun: "drained (fst (resolveRun st)) = drained st"
  by (cases "endHandlerRunFunc st")
     (simp_all add: resolveRun_def drained_def drainedTestcases_def drainedSpecs_def running_sum)

lemma endHandler_resolves:
  assumes "\<not> hasTriggeredExitRoutine st" and "\<not> multiremote cfg"
    and "endHandler cfg c code st = Inr (st', r)"
  shows "(r \<noteq> None) = drained st'"
proof -
  let ?s2 = "releaseInstance (fst c) (recordExit code st)"
  have i: "fst c < length (schedule (recordExit code st))"
    using assms by (auto simp: endHandler_def Let_def split: if_splits)
  have ne: "\<not> hasTriggeredExitRoutine ?s2"
    using assms(1) by (simp add: releaseInstance_def recordExit_def Let_def)
  obtain s3 b where c3: "callRunFunc cfg ?s2 = Inr (s3, b)"
    using assms i by (auto simp: endHandler_def Let_def split: sum.splits)
  have d: "b = drained s3" using callRunFunc_drained [OF ne c3] by simp
  show ?thesis
  proof (cases b)
    case True
    with assms i c3 have "(st', r) = resolveRun s3" by (simp add: endHandler_def Let_def)
    then have "st' = fst (resolveRun s3)" and "r \<noteq> None"
      by (metis fst_conv, auto simp: resolveRun_def)
    with d True drained_resolveRun [of s3] show ?thesis by simp
  next
    case False
    with assms i c3 have "st' = s3 \<and> r = None" by (simp add: endHandler_def Let_def)
    with d False show ?thesis by simp
  qed
qed

text \<open>Running the loops on a concrete state, one pass at a time.\<close>

lemma testcasesLoop_stop:
  "\<not> getNumberOfRunningInstances st < maxInstances cfg \<Longrightarrow> testcasesLoop cfg st = st"
  by (simp add: testcasesLoop.simps [of cfg st])

lemma testcasesLoop_break:
  "getNumberOfRunningInstances st < maxInstances cfg \<Longrightarrow> \<not> snd (testcasesPass cfg st) \<Longrightarrow>
     testcasesLoop cfg st = fst (testcasesPass cfg st)"
  by (cases "testcasesPass cfg st") (simp add: testcasesLoop.simps [of cfg st])

lemma testcasesLoop_continue:
  "getNumberOfRunningInstances st < maxInstances cfg \<Longrightarrow> snd (testcasesPass cfg st) \<Longrightarrow>
     testcasesLoop cfg st = testcasesLoop cfg (fst (testcasesPass cfg st))"
  by (cases "testcasesPass cfg st") (simp add: testcasesLoop.simps [of cfg st])

lemma specsLoop_stop:
  "\<not> getNumberOfRunningInstances st < maxInstances cfg \<Longrightarrow> specsLoop cfg st = st"
  by (simp add: specsLoop.simps [of cfg st])

lemma specsLoop_break:
  "getNumberOfRunningInstances st < maxInstances cfg \<Longrightarrow> \<not> snd (specsPass cfg st) \<Longrightarrow>
     specsLoop cfg st = fst (specsPass cfg st)"
  by (cases "specsPass cfg st") (simp add: specsLoop.simps [of cfg st])

lemma specsLoop_continue:
  "getNumberOfRunningInstances st < maxInstances cfg \<Longrightarrow> snd (specsPass cfg st) \<Longrightarrow>
     specsLoop cfg st = specsLoop cfg (fst (specsPass cfg st))"
  by (cases "specsPass cfg st") (simp add: specsLoop.simps [of cfg st])

lemmas testcasesLoop_eval = testcasesLoop_stop testcasesLoop_break testcasesLoop_continue
  testcasesPass_def schedulableTestcases_def sort_js_byRunningInstances running_sum
  startRunnerInstance_def getRunnerId_def bailFilter_def clearTestcases_def Let_def

lemmas specsLoop_eval = specsLoop_stop specsLoop_break specsLoop_continue
  specsPass_def schedulableSpecs_def sort_js_byRunningInstances running_sum
  startValidatorInstance_def getRunnerId_def Let_def

lemmas endHandler_eval = endHandler_def callRunFunc_def runSpecs_def runTestcases_def
  recordExit_def releaseInstance_def resolveRun_def getNumberOfSpecsLeft_def
  getNumberOfTestcasesLeft_def reduce1_def

lemma runTestcases_total:
  "(\<exists>r. runTestcases cfg st = Inr r) = (schedule st \<noteq> [] \<or> hasTriggeredExitRoutine st)"
proof (cases "hasTriggeredExitRoutine st")
  case True
  then have "runTestcases cfg st = Inr (st, True)" by (simp add: runTestcases_def)
  with True show ?thesis by blast
next
  case False
  have e: "(schedule (testcasesLoop cfg st) = []) = (schedule st = [])"
    using length_testcasesLoop [of cfg st] by (metis length_0_conv)
  show ?thesis
  proof (cases "schedule st = []")
    case True
    then have "getNumberOfRunningInstances (testcasesLoop cfg st) = 0"
      using e by (simp add: running_sum)
    with True False e getNumberOfTestcasesLeft_error [of "testcasesLoop cfg st"]
    have "runTestcases cfg st = Inl TypeError" by (simp add: runTestcases_def Let_def)
    with True False show ?thesis by simp
  next
    case ne: False
    then have "getNumberOfTestcasesLeft (testcasesLoop cfg st) \<noteq> Inl TypeError"
      using e getNumberOfTestcasesLeft_error [of "testcasesLoop cfg st"] by simp
    then obtain n where "getNumberOfTestcasesLeft (testcasesLoop cfg st) = Inr n"
      by (cases "getNumberOfTestcasesLeft (testcasesLoop cfg st)")
         (auto dest: getNumberOfTestcasesLeft_throws)
    with False have "\<exists>r. runTestcases cfg st = Inr r"
      by (cases "getNumberOfRunningInstances (testcasesLoop cfg st) = 0")
         (auto simp: runTestcases_def Let_def)
    with ne show ?thesis by blast
  qed
qed

subsection \<open>Messages leave the schedule alone\<close>

lemma schedule_report [simp]: "schedule (report m st) = schedule st"
  by (simp add: report_def)

lemma schedule_ensureResults [simp]: "schedule (ensureResults g st) = schedule st"
  by (simp add: ensureResults_def)

lemma schedule_evaluateValidations:
  "evaluateValidations s cr m st = Inr (v, m', st') \<Longrightarrow> st' = st"
  by (auto simp: evaluateValidations_def split: option.splits sum.splits property.splits)

lemma schedule_validationMessage:
  "validationMessage c m st = Inr (m', st') \<Longrightarrow> schedule st' = schedule st"
  by (auto simp: validationMessage_def Let_def split: if_splits option.splits sum.splits prod.splits
        dest!: schedule_evaluateValidations)

lemma schedule_fillValidationResults:
  "fillValidationResults a m st = Inr st' \<Longrightarrow> schedule st' = schedule st"
  by (auto simp: fillValidationResults_def split: option.splits if_splits sum.splits)

lemma schedule_handleAssertion:
  "handleAssertion a m st = Inr (a', m', st') \<Longrightarrow> schedule st' = schedule st"
  by (auto simp: handleAssertion_def Let_def split: option.splits sum.splits if_splits
        dest: schedule_fillValidationResults)

lemma schedule_handleAssertions:
  "handleAssertions as m st = Inr (as', m', st') \<Longrightarrow> schedule st' = schedule st"
proof (induction as arbitrary: m st as' m' st')
  case Nil
  then show ?case by simp
next
  case (Cons a as)
  then show ?case
    by (auto split: sum.splits prod.splits dest: schedule_handleAssertion)
qed

lemma schedule_currentStackBlock:
  "currentStackBlock c (m, st) = Inr (m', st') \<Longrightarrow> schedule st' = schedule st"
  by (auto simp: currentStackBlock_def split: if_splits)

lemma schedule_afterCommandBlock:
  "afterCommandBlock c (m, st) = Inr (m', st') \<Longrightarrow> schedule st' = schedule st"
  by (auto simp: afterCommandBlock_def split: if_splits)

lemma schedule_testStartBlock:
  "testStartBlock c (m, st) = Inr (m', st') \<Longrightarrow> schedule st' = schedule st"
  by (auto simp: testStartBlock_def split: if_splits option.splits)

lemma schedule_testFailBlock:
  "testFailBlock c (m, st) = Inr (m', st') \<Longrightarrow> schedule st' = schedule st"
  by (auto simp: testFailBlock_def Let_def
        split: option.splits sum.splits prod.splits if_splits
        dest!: schedule_handleAssertions)

lemma schedule_anyStepBlock:
  "anyStepBlock c (m, st) = Inr (m', st') \<Longrightarrow> schedule st' = schedule st"
  by (auto simp: anyStepBlock_def Let_def split: if_splits)

lemma schedule_stepStartBlock:
  "stepStartBlock c (m, st) = Inr (m', st') \<Longrightarrow> schedule st' = schedule st"
  by (auto simp: stepStartBlock_def Let_def split: if_splits option.splits)

lemma schedule_stepFailedBlock:
  "stepFailedBlock c (m, st) = Inr (m', st') \<Longrightarrow> schedule st' = schedule st"
  by (auto simp: stepFailedBlock_def Let_def split: if_splits option.splits sum.splits)

lemma schedule_stepEndBlock:
  "stepEndBlock c (m, st) = Inr (m', st') \<Longrightarrow> schedule st' = schedule st"
  by (auto simp: stepEndBlock_def Let_def split: if_splits option.splits)

lemma schedule_validateSuccesses:
  "validateSuccesses c key a crs st = Inr st' \<Longrightarrow> schedule st' = schedule st"
proof (induction crs arbitrary: st)
  case Nil
  then show ?case by simp
next
  case (Cons cr crs)
  from Cons.prems obtain st1 where v: "validateSuccess c key a cr st = Inr st1"
    and r: "validateSuccesses c key a crs st1 = Inr st'"
    by (auto split: sum.splits)
  from v have "schedule st1 = schedule st"
    by (auto simp: validateSuccess_def Let_def split: option.splits property.splits)
  with Cons.IH [OF r] show ?case by simp
qed

lemma schedule_validateFailure:
  "validateFailure c key cr (a, k, st) = Inr (a', k', st') \<Longrightarrow> schedule st' = schedule st"
  by (auto simp: validateFailure_def Let_def split: option.splits sum.splits property.splits)

lemma schedule_validateFailures:
  "validateFailures c key crs (a, k, st) = Inr (a', k', st') \<Longrightarrow> schedule st' = schedule st"
proof (induction crs arbitrary: a k st)
  case Nil
  then show ?case by simp
next
  case (Cons cr crs)
  then show ?case
    by (auto split: sum.splits dest: schedule_validateFailure)
qed

lemma schedule_validateKeys:
  "validateKeys cfg c m keys (a, k, st) = Inr (a', k', st') \<Longrightarrow> schedule st' = schedule st"
proof (induction keys arbitrary: a k st)
  case Nil
  then show ?case by simp
next
  case (Cons kc keys)
  obtain key crs where kc: "kc = (key, crs)" by (cases kc)
  from Cons.prems kc show ?case
    by (auto simp: Let_def split: option.splits if_splits sum.splits prod.splits
          dest!: Cons.IH schedule_validateFailures schedule_validateSuccesses)
qed

lemma schedule_validateBlock:
  "validateBlock cfg c (m, st) = Inr (m', st') \<Longrightarrow> schedule st' = schedule st"
  by (auto simp: validateBlock_def Let_def split: if_splits option.splits sum.splits prod.splits
        dest!: schedule_validateKeys)

lemma runBlocks_preserves:
  "\<forall>block\<in>set blocks. \<forall>m st m' st'. block (m, st) = Inr (m', st') \<longrightarrow> f st' = f st \<Longrightarrow>
   runBlocks blocks (m, st) = Inr (m', st') \<Longrightarrow> f st' = f st"
proof (induction blocks arbitrary: m st)
  case Nil
  then show ?case by simp
next
  case (Cons block blocks)
  from Cons.prems(2) obtain m1 st1 where b: "block (m, st) = Inr (m1, st1)"
    and r: "runBlocks blocks (m1, st1) = Inr (m', st')"
    by (auto split: sum.splits)
  have "f st1 = f st" using Cons.prems(1) b by simp
  moreover have "f st' = f st1" using Cons.IH [OF _ r] Cons.prems(1) by simp
  ultimately show ?case by simp
qed

lemma schedule_executionMessage:
  "executionMessage cfg c m st = Inr (m', st') \<Longrightarrow> schedule st' = schedule st"
  unfolding executionMessage_def
  by (erule runBlocks_preserves [rotated])
     (auto dest: schedule_currentStackBlock schedule_afterCommandBlock schedule_testStartBlock
        schedule_testFailBlock schedule_anyStepBlock schedule_stepStartBlock
        schedule_stepFailedBlock schedule_stepEndBlock schedule_validateBlock)

lemma schedule_messageHandler:
  "messageHandler cfg c m st = Inr st' \<Longrightarrow> schedule st' = schedule st"
  by (auto simp: messageHandler_def Let_def split: if_splits sum.splits prod.splits
        dest!: schedule_validationMessage schedule_executionMessage)

subsection \<open>The counters of the schedule\<close>

lemma counters_testcasesPass_True:
  assumes "testcasesPass cfg st = (st', True)"
  shows "\<exists>i<length (schedule st). 0 < availableInstances (schedule st ! i)
           \<and> getNumberOfRunningInstances st < maxInstances cfg
           \<and> counters st' = (counters st)
                [i := (availableInstances (schedule st ! i) - 1, runningInstances (schedule st ! i) + 1)]"
proof -
  from testcasesPass_True [OF assms] obtain i where
    i: "i < length (schedule st)" and a: "0 < availableInstances (schedule st ! i)"
    and r: "getNumberOfRunningInstances st < maxInstances cfg"
    and s: "schedule st' = (schedule st)
          [i := dispatched ((schedule st ! i)\<lparr>testcases := tl (testcases (schedule st ! i))\<rparr>)]"
    by blast
  have "counters st' = (counters st)
      [i := (availableInstances (schedule st ! i) - 1, runningInstances (schedule st ! i) + 1)]"
    by (simp add: counters_def s map_update dispatched_def)
  with i a r show ?thesis by blast
qed

lemma counters_specsPass_True:
  assumes "specsPass cfg st = (st', True)"
  shows "\<exists>i<length (schedule st). 0 < availableInstances (schedule st ! i)
           \<and> getNumberOfRunningInstances st < maxInstances cfg
           \<and> counters st' = (counters st)
                [i := (availableInstances (schedule st ! i) - 1, runningInstances (schedule st ! i) + 1)]"
proof -
  from specsPass_True [OF assms] obtain i where
    i: "i < length (schedule st)" and a: "0 < availableInstances (schedule st ! i)"
    and r: "getNumberOfRunningInstances st < maxInstances cfg"
    and s: "schedule st' = (schedule st)
          [i := dispatched ((schedule st ! i)\<lparr>specs := tl (specs (schedule st ! i))\<rparr>)]"
    by blast
  have "counters st' = (counters st)
      [i := (availableInstances (schedule st ! i) - 1, runningInstances (schedule st ! i) + 1)]"
    by (simp add: counters_def s map_update dispatched_def)
  with i a r show ?thesis by blast
qed

lemma counters_testcasesPass_False:
  "testcasesPass cfg st = (st', False) \<Longrightarrow> counters st' = counters st"
  by (auto dest!: testcasesPass_False simp: counters_def clearTestcases_def comp_def)

lemma counters_specsPass_False:
  "specsPass cfg st = (st', False) \<Longrightarrow> counters st' = counters st"
  by (auto dest!: specsPass_False)

lemma counters_releaseInstance:
  "counters (releaseInstance i st) = (counters st)
     [i := (availableInstances (schedule st ! i) + 1, runningInstances (schedule st ! i) - 1)]"
  by (simp add: counters_def releaseInstance_def Let_def map_update)

lemma counters_others:
  "counters (recordExit code st) = counters st"
  "counters (fst (resolveRun st)) = counters st"
  "counters (fst (exitHandler st)) = counters st"
  by (simp_all add: counters_def recordExit_def resolveRun_def exitHandler_def)

lemma counters_messageHandler:
  "messageHandler cfg c m st = Inr st' \<Longrightarrow> counters st' = counters st"
  by (simp add: counters_def schedule_messageHandler)

lemma slots_counters: "slots st = map (\<lambda>(a, r). a + r) (counters st)"
  by (simp add: slots_def counters_def comp_def)

lemma slots_update:
  "i < length (counters st) \<Longrightarrow> counters st ! i = (a, r) \<Longrightarrow> a' + r' = a + r \<Longrightarrow>
     counters st' = (counters st)[i := (a', r')] \<Longrightarrow> slots st' = slots st"
  by (simp add: slots_counters map_update list_update_same_conv)

lemma counters_nth:
  "i < length (schedule st) \<Longrightarrow>
     counters st ! i = (availableInstances (schedule st ! i), runningInstances (schedule st ! i))"
  by (simp add: counters_def)

lemma slots_pass:
  assumes "testcasesPass cfg st = (st', b) \<or> specsPass cfg st = (st', b)"
  shows "slots st' = slots st"
proof (cases b)
  case False
  with assms show ?thesis
    by (auto dest!: counters_testcasesPass_False counters_specsPass_False simp: slots_counters)
next
  case True
  with assms obtain i where i: "i < length (schedule st)"
    and c: "counters st' = (counters st)
        [i := (availableInstances (schedule st ! i) - 1, runningInstances (schedule st ! i) + 1)]"
    using counters_testcasesPass_True [of cfg st st'] counters_specsPass_True [of cfg st st']
    by auto
  show ?thesis
    by (rule slots_update [OF _ counters_nth [OF i] _ c]) (use i in \<open>simp_all add: counters_def\<close>)
qed

lemma slots_releaseInstance:
  "i < length (schedule st) \<Longrightarrow> slots (releaseInstance i st) = slots st"
  by (rule slots_update [OF _ counters_nth _ counters_releaseInstance])
     (simp_all add: counters_def)

lemma slots_initial:
  "slots (st\<lparr>schedule := testcaseSchedule cfg capabilities\<rparr>) = map (instanceLimit cfg) capabilities"
  "slots (st\<lparr>schedule := specSchedule cfg capabilities\<rparr>) = map (instanceLimit cfg) capabilities"
proof -
  have "map (\<lambda>x. instanceLimit cfg (snd x)) (enumerate n cs) = map (instanceLimit cfg) cs" for n cs
    by (induction cs arbitrary: n) simp_all
  then show "slots (st\<lparr>schedule := testcaseSchedule cfg capabilities\<rparr>) = map (instanceLimit cfg) capabilities"
    and "slots (st\<lparr>schedule := specSchedule cfg capabilities\<rparr>) = map (instanceLimit cfg) capabilities"
    by (simp_all add: slots_def testcaseSchedule_def specSchedule_def comp_def case_prod_unfold)
qed

lemma reachable_slots:
  "reachable cfg capabilities st \<Longrightarrow> slots st = map (instanceLimit cfg) capabilities"
proof (induction rule: reachable.induct)
  case (first_phase st)
  then show ?case using slots_initial(1) [where st = st and cfg = cfg and capabilities = capabilities]
    by (simp add: slots_def)
next
  case (second_phase st)
  then show ?case using slots_initial(2) [where st = st and cfg = cfg and capabilities = capabilities]
    by (simp add: slots_def)
next
  case (testcases_pass st st' b)
  then show ?case using slots_pass [of cfg st st' b] by simp
next
  case (specs_pass st st' b)
  then show ?case using slots_pass [of cfg st st' b] by simp
next
  case (exit_recorded st code)
  then show ?case by (simp add: slots_counters counters_others)
next
  case (instance_released st i)
  then show ?case by (simp add: slots_releaseInstance)
next
  case (run_resolved st)
  then show ?case by (simp add: slots_counters counters_others)
next
  case (interrupt st)
  then show ?case by (simp add: slots_counters counters_others)
next
  case (message_handled st c m st')
  then show ?case by (simp add: slots_counters counters_messageHandler)
qed

subsection \<open>The states of a phase\<close>

text \<open>What the dispatch functions and \<open>endHandler\<close> return is a state of the phase.\<close>

lemma reachable_testcasesLoop:
  "reachable cfg capabilities st \<Longrightarrow> reachable cfg capabilities (testcasesLoop cfg st)"
  by (rule testcasesLoop_invariant) (auto intro: reachable.testcases_pass)

lemma reachable_specsLoop:
  "reachable cfg capabilities st \<Longrightarrow> reachable cfg capabilities (specsLoop cfg st)"
  by (rule specsLoop_invariant) (auto intro: reachable.specs_pass)

lemma reachable_callRunFunc:
  assumes "reachable cfg capabilities st" and "callRunFunc cfg st = Inr (st', b)"
  shows "reachable cfg capabilities st'"
proof (cases "endHandlerRunFunc st")
  case RunTestcases
  with assms(2) have "runTestcases cfg st = Inr (st', b)" by (simp add: callRunFunc_def)
  from runTestcases_state [OF this] assms(1) show ?thesis
    by (simp add: reachable_testcasesLoop split: if_splits)
next
  case RunSpecs
  with assms(2) have "runSpecs cfg st = (st', b)" by (simp add: callRunFunc_def)
  from runSpecs_state [OF this] assms(1) show ?thesis
    by (simp add: reachable_specsLoop split: if_splits)
qed

lemma reachable_endHandler:
  assumes "reachable cfg capabilities st" and "endHandler cfg c code st = Inr (st', r)"
  shows "reachable cfg capabilities st'"
proof (cases "multiremote cfg")
  case True
  with assms(2) have "st' = fst (resolveRun (recordExit code st))"
    by (auto simp: endHandler_def Let_def)
  with assms(1) show ?thesis by (simp add: reachable.exit_recorded reachable.run_resolved)
next
  case False
  let ?s2 = "releaseInstance (fst c) (recordExit code st)"
  have i: "fst c < length (schedule (recordExit code st))"
    using assms(2) False by (auto simp: endHandler_def Let_def split: if_splits)
  have r2: "reachable cfg capabilities ?s2"
    using assms(1) i by (simp add: reachable.exit_recorded reachable.instance_released)
  obtain s3 b where c3: "callRunFunc cfg ?s2 = Inr (s3, b)"
    using assms(2) False i by (auto simp: endHandler_def Let_def split: sum.splits)
  have r3: "reachable cfg capabilities s3" using reachable_callRunFunc [OF r2 c3] .
  have "st' = s3 \<or> st' = fst (resolveRun s3)"
    using assms(2) False i c3 by (cases b) (auto simp: endHandler_def Let_def)
  with r3 show ?thesis by (auto intro: reachable.run_resolved)
qed

lemma available_nonneg:
  assumes "\<forall>c\<in>set capabilities. 0 \<le> instanceLimit cfg c"
    and "reachable cfg capabilities st"
  shows "\<forall>p\<in>set (counters st). 0 \<le> fst p"
  using assms(2)
proof (induction rule: reachable.induct)
  case (first_phase st)
  then show ?case using assms(1)
    by (auto simp: counters_def testcaseSchedule_def in_set_enumerate_eq)
next
  case (second_phase st)
  then show ?case using assms(1)
    by (auto simp: counters_def specSchedule_def in_set_enumerate_eq)
next
  case (testcases_pass st st' b)
  show ?case
  proof (cases b)
    case False
    with testcases_pass show ?thesis by (auto dest!: counters_testcasesPass_False)
  next
    case True
    with testcases_pass obtain i where "0 < availableInstances (schedule st ! i)"
      and "counters st' = (counters st)
        [i := (availableInstances (schedule st ! i) - 1, runningInstances (schedule st ! i) + 1)]"
      using counters_testcasesPass_True [of cfg st st'] by auto
    with testcases_pass.IH show ?thesis by (auto dest!: set_update_subset_insert [THEN subsetD])
  qed
next
  case (specs_pass st st' b)
  show ?case
  proof (cases b)
    case False
    with specs_pass show ?thesis by (auto dest!: counters_specsPass_False)
  next
    case True
    with specs_pass obtain i where "0 < availableInstances (schedule st ! i)"
      and "counters st' = (counters st)
        [i := (availableInstances (schedule st ! i) - 1, runningInstances (schedule st ! i) + 1)]"
      using counters_specsPass_True [of cfg st st'] by auto
    with specs_pass.IH show ?thesis by (auto dest!: set_update_subset_insert [THEN subsetD])
  qed
next
  case (exit_recorded st code)
  then show ?case by (simp add: counters_others)
next
  case (instance_released st i)
  then have "0 \<le> availableInstances (schedule st ! i)"
    using counters_nth [of i st] by (metis fst_conv nth_mem length_map counters_def)
  with instance_released show ?case
    by (auto simp: counters_releaseInstance dest!: set_update_subset_insert [THEN subsetD])
next
  case (run_resolved st)
  then show ?case by (simp add: counters_others)
next
  case (interrupt st)
  then show ?case by (simp add: counters_others)
next
  case (message_handled st c m st')
  then show ?case by (simp add: counters_messageHandler)
qed

lemma running_counters:
  "getNumberOfRunningInstances st = sum_list (map snd (counters st))"
  by (simp add: running_sum counters_def comp_def)

lemma sum_list_snd_update:
  "i < length ps \<Longrightarrow> sum_list (map snd (ps[i := (a, r)])) = sum_list (map snd ps) - snd (ps ! i) + r"
  for ps :: "(int \<times> int) list"
  by (induction ps arbitrary: i) (auto split: nat.splits)

lemma running_bounded:
  assumes "0 \<le> maxInstances cfg" and "reachable cfg capabilities st"
  shows "getNumberOfRunningInstances st \<le> maxInstances cfg"
  using assms(2)
proof (induction rule: reachable.induct)
  case (first_phase st)
  have "sum_list (map (\<lambda>x. 0::int) xs) = 0" for xs :: "(nat \<times> capability) list"
    by (induction xs) simp_all
  with first_phase assms(1) show ?case
    by (simp add: running_sum testcaseSchedule_def comp_def case_prod_unfold)
next
  case (second_phase st)
  have "sum_list (map (\<lambda>x. 0::int) xs) = 0" for xs :: "(nat \<times> capability) list"
    by (induction xs) simp_all
  with second_phase assms(1) show ?case
    by (simp add: running_sum specSchedule_def comp_def case_prod_unfold)
next
  case (testcases_pass st st' b)
  show ?case
  proof (cases b)
    case False
    with testcases_pass show ?thesis
      by (auto dest!: counters_testcasesPass_False simp: running_counters)
  next
    case True
    with testcases_pass have "getNumberOfRunningInstances st' = getNumberOfRunningInstances st + 1"
      by (simp add: testcasesPass_running)
    with testcases_pass show ?thesis by simp
  qed
next
  case (specs_pass st st' b)
  show ?case
  proof (cases b)
    case False
    with specs_pass show ?thesis
      by (auto dest!: counters_specsPass_False simp: running_counters)
  next
    case True
    with specs_pass have "getNumberOfRunningInstances st' = getNumberOfRunningInstances st + 1"
      by (simp add: specsPass_running)
    with specs_pass show ?thesis by simp
  qed
next
  case (exit_recorded st code)
  then show ?case by (simp add: running_counters counters_others)
next
  case (instance_released st i)
  then have "getNumberOfRunningInstances (releaseInstance i st) = getNumberOfRunningInstances st - 1"
    by (simp add: running_sum releaseInstance_def Let_def sum_list_update_running)
  with instance_released show ?case by simp
next
  case (run_resolved st)
  then show ?case by (simp add: running_counters counters_others)
next
  case (interrupt st)
  then show ?case by (simp add: running_counters counters_others)
next
  case (message_handled st c m st')
  then show ?case by (simp add: running_counters counters_messageHandler)
qed

subsection \<open>The example states\<close>

lemmas schedule_eval = specSchedule_def testcaseSchedule_def instanceLimit_def
  twoCapabilities_def

lemmas example_eval = startOfSpecs_def startOfTestcases_def schedule_eval exampleConfig_def
  newLauncher_def

lemma reachable_runSpecs_example:
  "reachable exampleConfig twoCapabilities (fst (runSpecs exampleConfig startOfSpecs))"
proof -
  have "reachable exampleConfig twoCapabilities startOfSpecs"
    by (rule reachable.second_phase) (simp add: startOfSpecs_def)
  then have "reachable exampleConfig twoCapabilities (specsLoop exampleConfig startOfSpecs)"
    by (rule reachable_specsLoop)
  then show ?thesis by (simp add: runSpecs_def startOfSpecs_def newLauncher_def Let_def)
qed

subsection \<open>Workers started and instances released\<close>

lemma testcasesPass_started:
  assumes "testcasesPass cfg st = (st', True)"
  shows "\<exists>i<length (schedule st).
           schedule st' = (schedule st)
             [i := dispatched ((schedule st ! i)\<lparr>testcases := tl (testcases (schedule st ! i))\<rparr>)]
         \<and> (\<forall>j. started st' j = started st j + (if j = cid (schedule st ! i) then 1 else 0))"
proof -
  obtain i a rest where c: "schedulableTestcases cfg st = (i, a) # rest"
    using assms by (auto simp: testcasesPass_def Let_def split: list.splits)
  then have m: "(i, a) \<in> set (schedulableTestcases cfg st)" by simp
  then have b: "bailFilter cfg st"
    by (auto simp: schedulableTestcases_def sort_js_byRunningInstances)
  from m have ia: "i < length (schedule st)" "schedule st ! i = a"
    by (auto simp: schedulableTestcases_def sort_js_byRunningInstances in_set_enumerate_eq)
  have s: "schedule st' = (schedule st)[i := dispatched (a\<lparr>testcases := tl (testcases a)\<rparr>)]"
    using assms c b ia by (auto simp: testcasesPass_def Let_def dispatched_def)
  have p: "processes st' = processes st @ [((cid a, rid st (cid a)), [hd (testcases a)])]"
    using assms c b
    by (auto simp: testcasesPass_def Let_def startRunnerInstance_def getRunnerId_def)
  have "started st' j = started st j + (if j = cid a then 1 else 0)" for j
    by (simp add: started_def p getCidGroup_def)
  with ia s show ?thesis by auto
qed

lemma specsPass_started:
  assumes "specsPass cfg st = (st', True)"
  shows "\<exists>i<length (schedule st).
           schedule st' = (schedule st)
             [i := dispatched ((schedule st ! i)\<lparr>specs := tl (specs (schedule st ! i))\<rparr>)]
         \<and> (\<forall>j. started st' j = started st j + (if j = cid (schedule st ! i) then 1 else 0))"
proof -
  obtain i a rest where c: "schedulableSpecs cfg st = (i, a) # rest"
    using assms by (auto simp: specsPass_def Let_def split: list.splits)
  then have m: "(i, a) \<in> set (schedulableSpecs cfg st)" by simp
  from m have ia: "i < length (schedule st)" "schedule st ! i = a"
    by (auto simp: schedulableSpecs_def sort_js_byRunningInstances in_set_enumerate_eq)
  have s: "schedule st' = (schedule st)[i := dispatched (a\<lparr>specs := tl (specs a)\<rparr>)]"
    using assms c ia by (auto simp: specsPass_def Let_def dispatched_def)
  have p: "processes st' = processes st @ [((cid a, rid st (cid a)), [hd (specs a)])]"
    using assms c
    by (auto simp: specsPass_def Let_def startValidatorInstance_def getRunnerId_def)
  have "started st' j = started st j + (if j = cid a then 1 else 0)" for j
    by (simp add: started_def p getCidGroup_def)
  with ia s show ?thesis by auto
qed

lemma indexed_nth: "indexed st \<Longrightarrow> i < length (schedule st) \<Longrightarrow> cid (schedule st ! i) = i"
  unfolding indexed_def by (metis add_0 length_map nth_map nth_upt)

lemma indexed_update:
  assumes "indexed st" and "i < length (schedule st)" and "cid b = cid (schedule st ! i)"
    and "schedule st' = (schedule st)[i := b]"
  shows "indexed st'"
proof -
  have "map cid (schedule st') = (map cid (schedule st))[i := cid b]"
    using assms(4) by (simp add: map_update)
  also have "\<dots> = map cid (schedule st)"
    using assms(2,3) by (simp add: list_update_same_conv)
  finally show ?thesis using assms(1,4) by (simp add: indexed_def)
qed

lemma ledger_dispatched:
  assumes "indexed st" and "i < length (schedule st)"
    and "schedule st' = (schedule st)[i := dispatched b]"
    and "cid b = cid (schedule st ! i)"
    and "availableInstances b = availableInstances (schedule st ! i)"
    and "runningInstances b = runningInstances (schedule st ! i)"
    and "\<forall>j. started st' j = started st j + (if j = cid (schedule st ! i) then 1 else 0)"
  shows "ledger st' = ledger st \<and> indexed st'"
proof
  have c: "cid (dispatched b) = cid (schedule st ! i)" using assms(4) by (simp add: dispatched_def)
  show "indexed st'" by (rule indexed_update [OF assms(1,2) c assms(3)])
  show "ledger st' = ledger st"
  proof (rule nth_equalityI)
    show "length (ledger st') = length (ledger st)" using assms(3) by (simp add: ledger_def)
  next
    fix j assume "j < length (ledger st')"
    then have j: "j < length (schedule st)" using assms(3) by (simp add: ledger_def)
    show "ledger st' ! j = ledger st ! j"
    proof (cases "j = i")
      case True
      with j assms(3-7) show ?thesis by (simp add: ledger_def dispatched_def)
    next
      case False
      then have "cid (schedule st ! j) \<noteq> cid (schedule st ! i)"
        using indexed_nth [OF assms(1) j] indexed_nth [OF assms(1,2)] by simp
      with False j assms(3,7) show ?thesis by (simp add: ledger_def)
    qed
  qed
qed

lemma ledger_testcasesPass:
  assumes "indexed st" and "testcasesPass cfg st = (st', b)"
  shows "ledger st' = ledger st \<and> indexed st'"
proof (cases b)
  case True
  with assms(2) obtain i where i: "i < length (schedule st)"
    and s: "schedule st' = (schedule st)
             [i := dispatched ((schedule st ! i)\<lparr>testcases := tl (testcases (schedule st ! i))\<rparr>)]"
    and p: "\<forall>j. started st' j = started st j + (if j = cid (schedule st ! i) then 1 else 0)"
    using testcasesPass_started [of cfg st st'] by auto
  show ?thesis by (rule ledger_dispatched [OF assms(1) i s _ _ _ p]) simp_all
next
  case False
  with assms(2) have "st' = st \<or> st' = clearTestcases st"
    using testcasesPass_False [of cfg st st'] by auto
  with assms(1) show ?thesis
    by (auto simp: ledger_def indexed_def clearTestcases_def started_def comp_def)
qed

lemma ledger_specsPass:
  assumes "indexed st" and "specsPass cfg st = (st', b)"
  shows "ledger st' = ledger st \<and> indexed st'"
proof (cases b)
  case True
  with assms(2) obtain i where i: "i < length (schedule st)"
    and s: "schedule st' = (schedule st)
             [i := dispatched ((schedule st ! i)\<lparr>specs := tl (specs (schedule st ! i))\<rparr>)]"
    and p: "\<forall>j. started st' j = started st j + (if j = cid (schedule st ! i) then 1 else 0)"
    using specsPass_started [of cfg st st'] by auto
  show ?thesis by (rule ledger_dispatched [OF assms(1) i s _ _ _ p]) simp_all
next
  case False
  with assms show ?thesis using specsPass_False [of cfg st st'] by simp
qed

lemma ledger_testcasesLoop:
  "indexed st \<Longrightarrow> ledger (testcasesLoop cfg st) = ledger st \<and> indexed (testcasesLoop cfg st)"
  by (rule testcasesLoop_invariant [where P = "\<lambda>s. ledger s = ledger st \<and> indexed s"])
     (auto dest: ledger_testcasesPass)

lemma ledger_specsLoop:
  "indexed st \<Longrightarrow> ledger (specsLoop cfg st) = ledger st \<and> indexed (specsLoop cfg st)"
  by (rule specsLoop_invariant [where P = "\<lambda>s. ledger s = ledger st \<and> indexed s"])
     (auto dest: ledger_specsPass)

lemma ledger_callRunFunc:
  assumes "indexed st" and "callRunFunc cfg st = Inr (st', b)"
  shows "ledger st' = ledger st \<and> indexed st'"
proof (cases "endHandlerRunFunc st")
  case RunTestcases
  with assms(2) have "runTestcases cfg st = Inr (st', b)" by (simp add: callRunFunc_def)
  from runTestcases_state [OF this] assms(1) show ?thesis
    by (auto simp: ledger_testcasesLoop split: if_splits)
next
  case RunSpecs
  with assms(2) have "runSpecs cfg st = (st', b)" by (simp add: callRunFunc_def)
  from runSpecs_state [OF this] assms(1) show ?thesis
    by (auto simp: ledger_specsLoop split: if_splits)
qed

lemma ledger_releaseInstance:
  assumes "indexed st" and "i < length (schedule st)"
  shows "ledger (releaseInstance i st) = (ledger st)[i := (fst (ledger st ! i) + 1, snd (ledger st ! i) - 1)]"
    and "indexed (releaseInstance i st)"
proof -
  show "indexed (releaseInstance i st)"
    by (rule indexed_update [OF assms, where b = "(schedule st ! i)
          \<lparr>availableInstances := availableInstances (schedule st ! i) + 1,
           runningInstances := runningInstances (schedule st ! i) - 1\<rparr>"])
       (simp_all add: releaseInstance_def Let_def)
  have p: "started (st\<lparr>schedule := x\<rparr>) = started st" for x
    by (simp add: started_def fun_eq_iff)
  show "ledger (releaseInstance i st) = (ledger st)[i := (fst (ledger st ! i) + 1, snd (ledger st ! i) - 1)]"
    using assms(2)
    by (simp add: ledger_def p releaseInstance_def Let_def map_update algebra_simps)
qed

lemma ledger_others:
  "ledger (recordExit code st) = ledger st" "indexed (recordExit code st) = indexed st"
  "ledger (fst (resolveRun st)) = ledger st" "indexed (fst (resolveRun st)) = indexed st"
  by (simp_all add: ledger_def indexed_def started_def recordExit_def resolveRun_def)

lemma ledger_endHandler:
  assumes "indexed st" and "\<not> multiremote cfg" and "endHandler cfg c code st = Inr (st', r)"
  shows "fst c < length (schedule st) \<and> indexed st'
       \<and> ledger st' = (ledger st)[fst c := (fst (ledger st ! fst c) + 1, snd (ledger st ! fst c) - 1)]"
proof -
  let ?s1 = "recordExit code st"
  let ?s2 = "releaseInstance (fst c) ?s1"
  have i: "fst c < length (schedule ?s1)"
    using assms(2,3) by (auto simp: endHandler_def Let_def split: if_splits)
  then have i': "fst c < length (schedule st)" by (simp add: recordExit_def)
  have x1: "indexed ?s1" using assms(1) by (simp add: ledger_others)
  have l2: "ledger ?s2 = (ledger st)[fst c := (fst (ledger st ! fst c) + 1, snd (ledger st ! fst c) - 1)]"
    using ledger_releaseInstance(1) [OF x1 i] by (simp add: ledger_others)
  have x2: "indexed ?s2" by (rule ledger_releaseInstance(2) [OF x1 i])
  obtain s3 b where c3: "callRunFunc cfg ?s2 = Inr (s3, b)"
    using assms(2,3) i by (auto simp: endHandler_def Let_def split: sum.splits)
  from ledger_callRunFunc [OF x2 c3] have l3: "ledger s3 = ledger ?s2" "indexed s3" by simp_all
  have "st' = s3 \<or> st' = fst (resolveRun s3)"
    using assms(2,3) i c3 by (cases b) (auto simp: endHandler_def Let_def)
  with l3 l2 i' show ?thesis by (auto simp: ledger_others)
qed

lemma endHandler_multiremote:
  "multiremote cfg \<Longrightarrow> endHandler cfg c code st = Inr (resolveRun (recordExit code st))"
  by (simp add: endHandler_def Let_def)

lemma endHandler_out_of_range:
  "\<not> multiremote cfg \<Longrightarrow> \<not> fst c < length (schedule st) \<Longrightarrow> endHandler cfg c code st = Inl TypeError"
  by (simp add: endHandler_def Let_def recordExit_def)

lemma reachable_indexed: "reachable cfg capabilities st \<Longrightarrow> indexed st"
proof (induction rule: reachable.induct)
  case (first_phase st)
  have "map (\<lambda>x. fst x) (enumerate n cs) = [n..<n + length cs]" for n and cs :: "capability list"
    by (simp add: map_fst_enumerate)
  then show ?case using first_phase
    by (simp add: indexed_def testcaseSchedule_def comp_def case_prod_unfold)
next
  case (second_phase st)
  have "map (\<lambda>x. fst x) (enumerate n cs) = [n..<n + length cs]" for n and cs :: "capability list"
    by (simp add: map_fst_enumerate)
  then show ?case using second_phase
    by (simp add: indexed_def specSchedule_def comp_def case_prod_unfold)
next
  case (testcases_pass st st' b)
  then show ?case using ledger_testcasesPass by blast
next
  case (specs_pass st st' b)
  then show ?case using ledger_specsPass by blast
next
  case (exit_recorded st code)
  then show ?case by (simp add: ledger_others)
next
  case (instance_released st i)
  then show ?case by (simp add: ledger_releaseInstance)
next
  case (run_resolved st)
  then show ?case by (simp add: ledger_others)
next
  case (interrupt st)
  then show ?case by (simp add: indexed_def exitHandler_def)
next
  case (message_handled st c m st')
  then show ?case using schedule_messageHandler [of cfg c m st st'] by (simp add: indexed_def)
qed

lemma ledger_nth:
  "indexed st \<Longrightarrow> i < length (schedule st) \<Longrightarrow>
     ledger st ! i = (availableInstances (schedule st ! i) + started st i,
                      runningInstances (schedule st ! i) - started st i)"
  by (simp add: ledger_def indexed_nth)

lemma started_testcasesPass:
  assumes "testcasesPass cfg st = (st', b)"
  shows "started st j \<le> started st' j"
proof (cases b)
  case True
  with assms show ?thesis using testcasesPass_started [of cfg st st'] by auto
next
  case False
  with assms have "st' = st \<or> st' = clearTestcases st"
    using testcasesPass_False [of cfg st st'] by auto
  then show ?thesis by (auto simp: started_def clearTestcases_def)
qed

lemma started_specsPass:
  assumes "specsPass cfg st = (st', b)"
  shows "started st j \<le> started st' j"
proof (cases b)
  case True
  with assms show ?thesis using specsPass_started [of cfg st st'] by auto
next
  case False
  with assms show ?thesis using specsPass_False [of cfg st st'] by simp
qed

lemma started_callRunFunc:
  assumes "callRunFunc cfg st = Inr (st', b)"
  shows "started st j \<le> started st' j"
proof -
  have t: "started st j \<le> started (testcasesLoop cfg st) j"
    by (rule testcasesLoop_invariant [where P = "\<lambda>s. started st j \<le> started s j"])
       (auto dest!: started_testcasesPass [where j = j])
  have s: "started st j \<le> started (specsLoop cfg st) j"
    by (rule specsLoop_invariant [where P = "\<lambda>s. started st j \<le> started s j"])
       (auto dest!: started_specsPass [where j = j])
  show ?thesis
  proof (cases "endHandlerRunFunc st")
    case RunTestcases
    with assms have "runTestcases cfg st = Inr (st', b)" by (simp add: callRunFunc_def)
    from runTestcases_state [OF this] t show ?thesis by (auto split: if_splits)
  next
    case RunSpecs
    with assms have "runSpecs cfg st = (st', b)" by (simp add: callRunFunc_def)
    from runSpecs_state [OF this] s show ?thesis by (auto split: if_splits)
  qed
qed

lemma started_endHandler:
  assumes "endHandler cfg c code st = Inr (st', r)"
  shows "started st j \<le> started st' j"
proof (cases "multiremote cfg")
  case True
  with assms show ?thesis
    by (auto simp: endHandler_def Let_def started_def recordExit_def resolveRun_def)
next
  case False
  let ?s2 = "releaseInstance (fst c) (recordExit code st)"
  have i: "fst c < length (schedule (recordExit code st))"
    using assms False by (auto simp: endHandler_def Let_def split: if_splits)
  obtain s3 b where c3: "callRunFunc cfg ?s2 = Inr (s3, b)"
    using assms False i by (auto simp: endHandler_def Let_def split: sum.splits)
  have "st' = s3 \<or> st' = fst (resolveRun s3)"
    using assms False i c3 by (cases b) (auto simp: endHandler_def Let_def)
  moreover have "started ?s2 j = started st j"
    by (simp add: started_def releaseInstance_def recordExit_def Let_def)
  moreover have "started (fst (resolveRun s3)) j = started s3 j"
    by (simp add: started_def resolveRun_def)
  ultimately show ?thesis using started_callRunFunc [OF c3, of j] by auto
qed

text \<open>The accounting of a worker exit and of a call of a dispatch function, entry by entry.\<close>

lemma endHandler_accounting:
  assumes "indexed st" and "\<not> multiremote cfg" and "endHandler cfg c code st = Inr (st', r)"
    and "i < length (schedule st)"
  shows "availableInstances (schedule st' ! i)
           = availableInstances (schedule st ! i) + (if i = fst c then 1 else 0)
               - (started st' i - started st i)"
    and "runningInstances (schedule st' ! i)
           = runningInstances (schedule st ! i) - (if i = fst c then 1 else 0)
               + (started st' i - started st i)"
    and "length (schedule st') = length (schedule st)"
proof -
  from ledger_endHandler [OF assms(1-3)] have c: "fst c < length (schedule st)"
    and x: "indexed st'"
    and l: "ledger st' = (ledger st)[fst c := (fst (ledger st ! fst c) + 1, snd (ledger st ! fst c) - 1)]"
    by simp_all
  from l have "length (ledger st') = length (ledger st)" by simp
  then show n: "length (schedule st') = length (schedule st)" by (simp add: ledger_def)
  have a: "ledger st' ! i = (availableInstances (schedule st' ! i) + started st' i,
                 runningInstances (schedule st' ! i) - started st' i)"
    using ledger_nth [OF x, of i] assms(4) n by simp
  have b: "ledger st ! i = (availableInstances (schedule st ! i) + started st i,
                 runningInstances (schedule st ! i) - started st i)"
    using ledger_nth [OF assms(1,4)] .
  have k: "i < length (ledger st)" using assms(4) by (simp add: ledger_def)
  show "availableInstances (schedule st' ! i)
           = availableInstances (schedule st ! i) + (if i = fst c then 1 else 0)
               - (started st' i - started st i)"
  proof (cases "i = fst c")
    case True
    with l k have "ledger st' ! i = (fst (ledger st ! i) + 1, snd (ledger st ! i) - 1)" by simp
    with a b True show ?thesis by simp
  next
    case False
    with l have "ledger st' ! i = ledger st ! i" by simp
    with a b False show ?thesis by simp
  qed
  show "runningInstances (schedule st' ! i)
           = runningInstances (schedule st ! i) - (if i = fst c then 1 else 0)
               + (started st' i - started st i)"
  proof (cases "i = fst c")
    case True
    with l k have "ledger st' ! i = (fst (ledger st ! i) + 1, snd (ledger st ! i) - 1)" by simp
    with a b True show ?thesis by simp
  next
    case False
    with l have "ledger st' ! i = ledger st ! i" by simp
    with a b False show ?thesis by simp
  qed
qed

lemma callRunFunc_accounting:
  assumes "indexed st" and "callRunFunc cfg st = Inr (st', b)" and "i < length (schedule st)"
  shows "availableInstances (schedule st' ! i)
           = availableInstances (schedule st ! i) - (started st' i - started st i)"
    and "runningInstances (schedule st' ! i)
           = runningInstances (schedule st ! i) + (started st' i - started st i)"
    and "length (schedule st') = length (schedule st)"
proof -
  from ledger_callRunFunc [OF assms(1,2)] have l: "ledger st' = ledger st" and x: "indexed st'"
    by simp_all
  from l have "length (ledger st') = length (ledger st)" by simp
  then show n: "length (schedule st') = length (schedule st)" by (simp add: ledger_def)
  have e: "(availableInstances (schedule st' ! i) + started st' i,
            runningInstances (schedule st' ! i) - started st' i)
      = (availableInstances (schedule st ! i) + started st i,
         runningInstances (schedule st ! i) - started st i)"
    using ledger_nth [OF x, of i] ledger_nth [OF assms(1,3)] assms(3) n l by simp
  from e show "availableInstances (schedule st' ! i)
           = availableInstances (schedule st ! i) - (started st' i - started st i)"
    by simp
  from e show "runningInstances (schedule st' ! i)
           = runningInstances (schedule st ! i) + (started st' i - started st i)"
    by simp
qed
section \<open>Properties of the aggregator\<close>

subsection \<open>Classification\<close>

lemma joinOutcomes_nonempty: "xs \<noteq> [] \<Longrightarrow> \<exists>r. joinOutcomes xs = Inr r"
  by (cases xs) (simp_all add: joinOutcomes_def reduce1_def)

lemma joinOutcomes_empty: "joinOutcomes [] = Inl TypeError"
  by (simp add: joinOutcomes_def reduce1_def)


lemma title_unchanged: "\<exists>t md. m = m\<lparr>title := t, metadata := md\<rparr>"
  by (rule exI [of _ "title m"], rule exI [of _ "metadata m"]) simp

lemma decodeTitle_result:
  "decodeTitle m = Inr m' \<Longrightarrow> \<exists>t md. m' = m\<lparr>title := t, metadata := md\<rparr>"
proof (cases "indexOf (event m) ''test:'' = 0 \<and> truthy (title m)")
  case True
  assume "decodeTitle m = Inr m'"
  with True show ?thesis by (auto simp: decodeTitle_def split: json_title.splits)
next
  case False
  assume "decodeTitle m = Inr m'"
  with False have "m' = m" by (auto simp: decodeTitle_def)
  with title_unchanged [of m] show ?thesis by simp
qed

lemma decodeTitle_decodable:
  "decodable m \<Longrightarrow> \<exists>t md. decodeTitle m = Inr (m\<lparr>title := t, metadata := md\<rparr>)"
proof (cases "indexOf (event m) ''test:'' = 0 \<and> truthy (title m)")
  case True
  assume "decodable m"
  with True obtain t md where "titleJson m = JsonValue t md"
    by (cases "titleJson m") (auto simp: decodable_def)
  with True show ?thesis by (auto simp: decodeTitle_def)
next
  case False
  then have "decodeTitle m = Inr m" by (auto simp: decodeTitle_def)
  with title_unchanged [of m] show ?thesis by metis
qed

lemma decodable_cid: "decodable (m\<lparr>cid_m := c\<rparr>) = decodable m"
  by (cases "titleJson m") (simp_all add: decodable_def)

lemma decodeTitle_other:
  "indexOf (event m) ''test:'' \<noteq> 0 \<Longrightarrow> decodeTitle m = Inr m"
  by (simp add: decodeTitle_def)


text \<open>
  Under the name of a member of \<open>Object.prototype\<close> that the results of the group do
  not hold as a story of their own, or the story as a bucket of failures of its own,
  \<open>evaluateValidations\<close> throws.
\<close>

lemma evaluateValidations_prototype:
  assumes "cid_m m = Some c" and "validationResults st (getCidGroup c) = Some stories"
  shows "toStr s \<in> set objectPrototype \<Longrightarrow> stories (toStr s) = None \<Longrightarrow>
           evaluateValidations s cr m st = Inl TypeError"
    and "stories (toStr s) = Some story \<Longrightarrow> toStr cr \<in> set objectPrototype \<Longrightarrow>
           failures story (toStr cr) = None \<Longrightarrow> evaluateValidations s cr m st = Inl TypeError"
  using assms by (simp_all add: evaluateValidations_def get_def)

text \<open>
  The status, or the error, depends on the validation results of the group, the story
  and the criteria only.
\<close>

lemma evaluateValidations_depends:
  assumes "cid_m ma = Some ca" and "cid_m mb = Some cb"
    and "validationResults sa (getCidGroup ca) = validationResults sb (getCidGroup cb)"
  shows "map_sum id fst (evaluateValidations s cr ma sa)
       = map_sum id fst (evaluateValidations s cr mb sb)"
  using assms
  by (simp add: evaluateValidations_def
        split: option.splits property.splits sum.splits)

lemma evaluateValidations_frame:
  "evaluateValidations s cr m st = Inr (v, m', st') \<Longrightarrow>
     st' = st \<and> cid_m m' = cid_m m \<and> event m' = event m"
  by (auto simp: evaluateValidations_def notValidated_def
        split: option.splits sum.splits property.splits)

lemma addTestArguments_frame:
  "addTestArguments s cr m st = Inr m' \<Longrightarrow> event m' = event m"
  by (auto simp: addTestArguments_def split: option.splits property.splits)



text \<open>
  In the second phase the handler leaves the validation results as they are, and a
  \<open>step:end\<close> that names a story and a criteria is handled only if
  \<open>evaluateValidations\<close> returns for them. So the ids that a handled
  \<open>step:end\<close> has recorded are ids for which \<open>evaluateValidations\<close> returns,
  for every message of the group and for the rest of the phase.
\<close>

lemma validationResults_second_phase:
  assumes "finishedTests st" and "messageHandler cfg channelCid m st = Inr st'"
  shows "validationResults st' = validationResults st \<and> finishedTests st'"
proof -
  have v: "validationResults s' = validationResults s \<and> finishedTests s' = finishedTests s"
    if "validationMessage c m1 s = Inr (m2, s')" for c m1 s m2 s'
    using that
    by (auto simp: validationMessage_def Let_def
          split: if_splits option.splits sum.splits prod.splits
          dest!: evaluateValidations_frame)
  from assms show ?thesis
    by (auto simp: messageHandler_def Let_def report_def
          split: if_splits sum.splits prod.splits dest!: v)
qed

lemma step_end_records:
  assumes "finishedTests st" and "event m = ''step:end''" and "validate m = Some (s, cr)"
    and "messageHandler cfg channelCid m st = Inr st'"
    and "g = getCidGroup (cidOf channelCid m)"
  shows "\<exists>vs v. validationStates st' g = Some vs \<and> storyId vs = s \<and> criteriaId vs = cr
      \<and> (\<forall>m2 c2. cid_m m2 = Some c2 \<and> getCidGroup c2 = g \<longrightarrow>
            map_sum id fst (evaluateValidations s cr m2 st') = Inr v)"
proof -
  let ?c = "cidOf channelCid m"
  let ?m = "m\<lparr>cid_m := Some ?c\<rparr>"
  let ?s1 = "st\<lparr>hasStartedAnyProcess := True\<rparr>"
  have d: "decodeTitle ?m = Inr ?m" using assms(2) by (simp add: decodeTitle_def)
  let ?m1 = "?m\<lparr>status := Some Passed\<rparr>"
  let ?vs = "(case validationStates ?s1 g of None \<Rightarrow> newValidationState | Some v \<Rightarrow> v)
               \<lparr>storyId := s, criteriaId := cr\<rparr>"
  let ?s2 = "?s1\<lparr>validationStates := (validationStates ?s1)(g \<mapsto> ?vs)\<rparr>"
  from assms(1,2,4) d obtain m3 s3 where vm: "validationMessage ?c ?m ?s1 = Inr (m3, s3)"
    and st': "st' = report m3 s3"
    by (auto simp: messageHandler_def Let_def cidOf_def split: sum.splits)
  from vm assms(2,3,5) obtain v m2 where e: "evaluateValidations s cr ?m1 ?s2 = Inr (v, m2, ?s2)"
    and s3: "s3 = ?s2"
    by (auto simp: validationMessage_def Let_def split: sum.splits
          dest: evaluateValidations_frame)
  have r: "validationResults st' = validationResults ?s2" using st' s3 by (simp add: report_def)
  have "map_sum id fst (evaluateValidations s cr m2' st') = Inr v"
    if "cid_m m2' = Some c2" and "getCidGroup c2 = g" for m2' c2
  proof -
    have "map_sum id fst (evaluateValidations s cr m2' st')
        = map_sum id fst (evaluateValidations s cr ?m1 ?s2)"
      by (rule evaluateValidations_depends [OF that(1), of ?m1 ?c]) (simp_all add: r that(2) assms(5))
    with e show ?thesis by simp
  qed
  moreover have "validationStates st' g = Some ?vs" using st' s3 by (simp add: report_def)
  ultimately show ?thesis by (intro exI [of _ ?vs] exI [of _ v]) simp
qed

text \<open>
  Where \<open>evaluateValidations\<close> returns, its status is the verdict on the two
  buckets, and \<open>addTestArguments\<close> returns as well.
\<close>

lemma evaluateValidations_returns:
  assumes "evaluateValidations s cr m st = Inr (v, m', st')" and "cid_m m = Some c"
  shows "verdict (failuresBucket st (getCidGroup c) (toStr s) (toStr cr))
                 (successesBucket st (getCidGroup c) (toStr s) (toStr cr)) = Inr v"
    and "cid_m m2 = Some c \<Longrightarrow> \<exists>m3. addTestArguments s cr m2 st = Inr m3"
proof -
  have "verdict (failuresBucket st (getCidGroup c) (toStr s) (toStr cr))
                 (successesBucket st (getCidGroup c) (toStr s) (toStr cr)) = Inr v
      \<and> (cid_m m2 = Some c \<longrightarrow> (\<exists>m3. addTestArguments s cr m2 st = Inr m3))"
  proof (cases "validationResults st (getCidGroup c)")
    case None
    with assms show ?thesis
      by (simp add: evaluateValidations_def verdict_def failuresBucket_def successesBucket_def
            addTestArguments_def)
  next
    case (Some stories)
    show ?thesis
    proof (cases "stories (toStr s)")
      case None
      with Some assms have p: "toStr s \<notin> set objectPrototype"
        by (auto simp: evaluateValidations_def get_def split: if_splits)
      with None Some assms show ?thesis
        by (simp add: evaluateValidations_def verdict_def failuresBucket_def successesBucket_def
              addTestArguments_def get_def)
    next
      case story: (Some story)
      have a: "cid_m m2 = Some c \<longrightarrow> (\<exists>m3. addTestArguments s cr m2 st = Inr m3)"
        using Some story by (simp add: addTestArguments_def get_def)
      have b: "failuresBucket st (getCidGroup c) (toStr s) (toStr cr) = failures story (toStr cr)"
          "successesBucket st (getCidGroup c) (toStr s) (toStr cr) = successes story (toStr cr)"
        using Some story by (simp_all add: failuresBucket_def successesBucket_def)
      show ?thesis
      proof (cases "failures story (toStr cr)")
        case fs: (Some fs)
        have e: "evaluateValidations s cr m st =
            (case joinOutcomes (map message fs) of
               Inl e \<Rightarrow> Inl e
             | Inr msg \<Rightarrow>
                 (case joinOutcomes (map stack fs) of
                    Inl e \<Rightarrow> Inl e
                  | Inr stk \<Rightarrow>
                      Inr (if list_ex (\<lambda>err. matcherName err = None) fs then ''broken'' else ''fail'',
                           m\<lparr>err := Some (noErr\<lparr>message := Some (toStr msg @ [nl]),
                                               stack := stk, matcherName := Some []\<rparr>),
                             errs := Some fs,
                             screenshots_m := get (screenshots story) (toStr cr)\<rparr>,
                           st)))"
          using Some story fs assms(2) by (simp add: evaluateValidations_def get_def)
        have ne: "fs \<noteq> []"
          using assms(1) e by (auto simp: joinOutcomes_empty)
        then obtain r1 r2 where j: "joinOutcomes (map message fs) = Inr r1"
            "joinOutcomes (map stack fs) = Inr r2"
          using joinOutcomes_nonempty [of "map message fs"] joinOutcomes_nonempty [of "map stack fs"]
          by auto
        from assms(1) e j
        have "v = (if list_ex (\<lambda>err. matcherName err = None) fs then ''broken'' else ''fail'')"
          by simp
        with ne b fs a show ?thesis by (simp add: verdict_def)
      next
        case None
        with Some story assms have p: "toStr cr \<notin> set objectPrototype"
          by (auto simp: evaluateValidations_def get_def split: if_splits)
        show ?thesis
        proof (cases "successes story (toStr cr)")
          case n2: None
          with None p Some story assms b a show ?thesis
            by (simp add: evaluateValidations_def get_def verdict_def)
        next
          case (Some l)
          with None p \<open>validationResults st (getCidGroup c) = Some stories\<close> story assms b a
          show ?thesis
            by (simp add: evaluateValidations_def get_def verdict_def)
        qed
      qed
    qed
  qed
  then show "verdict (failuresBucket st (getCidGroup c) (toStr s) (toStr cr))
                 (successesBucket st (getCidGroup c) (toStr s) (toStr cr)) = Inr v"
    and "cid_m m2 = Some c \<Longrightarrow> \<exists>m3. addTestArguments s cr m2 st = Inr m3"
    by simp_all
qed

lemma test_pass_recorded:
  assumes "finishedTests st" and "event m = ''test:pass''"
    and "validationStates st (getCidGroup (cidOf channelCid m)) = Some vs"
    and "decodable m"
    and "\<forall>m2 c2. cid_m m2 = Some c2 \<and> getCidGroup c2 = getCidGroup (cidOf channelCid m) \<longrightarrow>
           map_sum id fst (evaluateValidations (storyId vs) (criteriaId vs) m2 st) = Inr v"
  shows "\<exists>st' m'. messageHandler cfg channelCid m st = Inr st'
           \<and> reported st' = reported st @ [Report (''test:'' @ v) m']
           \<and> event m' = ''test:'' @ v
           \<and> verdict (failuresBucket st (getCidGroup (cidOf channelCid m)) (toStr (storyId vs)) (toStr (criteriaId vs)))
                      (successesBucket st (getCidGroup (cidOf channelCid m)) (toStr (storyId vs)) (toStr (criteriaId vs)))
               = Inr v"
proof -
  let ?c = "cidOf channelCid m"
  let ?m0 = "m\<lparr>cid_m := Some ?c\<rparr>"
  let ?st = "st\<lparr>hasStartedAnyProcess := True\<rparr>"
  have "decodable ?m0" using assms(4) by (simp add: decodable_cid)
  from decodeTitle_decodable [OF this] obtain t md where
    d: "decodeTitle ?m0 = Inr (?m0\<lparr>title := t, metadata := md\<rparr>)" by blast
  let ?m = "?m0\<lparr>title := t, metadata := md\<rparr>"
  have cm: "cid_m ?m = Some ?c" by simp
  have "map_sum id fst (evaluateValidations (storyId vs) (criteriaId vs) ?m ?st)
      = map_sum id fst (evaluateValidations (storyId vs) (criteriaId vs) ?m st)"
    by (rule evaluateValidations_depends [OF cm cm]) simp
  also have "\<dots> = Inr v" using assms(5) cm by blast
  finally obtain m2 st2 where
    e: "evaluateValidations (storyId vs) (criteriaId vs) ?m ?st = Inr (v, m2, st2)"
    by (cases "evaluateValidations (storyId vs) (criteriaId vs) ?m ?st") auto
  from evaluateValidations_frame [OF e] have f: "st2 = ?st" "cid_m m2 = Some ?c" by simp_all
  have b: "failuresBucket ?st = failuresBucket st" "successesBucket ?st = successesBucket st"
    by (simp_all add: failuresBucket_def successesBucket_def fun_eq_iff)
  have vd: "verdict (failuresBucket st (getCidGroup ?c) (toStr (storyId vs)) (toStr (criteriaId vs)))
                 (successesBucket st (getCidGroup ?c) (toStr (storyId vs)) (toStr (criteriaId vs))) = Inr v"
    using evaluateValidations_returns(1) [OF e cm] b by simp
  obtain m3 where a: "addTestArguments (storyId vs) (criteriaId vs) (m2\<lparr>event := ''test:'' @ v\<rparr>) st2 = Inr m3"
    using evaluateValidations_returns(2) [OF e cm, of "m2\<lparr>event := ''test:'' @ v\<rparr>"] f
    by (simp del: append.simps) blast
  have ev: "event m3 = ''test:'' @ v" using addTestArguments_frame [OF a] by simp
  have "validationMessage ?c ?m ?st = Inr (m3, ?st)"
    using assms(2,3) e a f by (simp add: validationMessage_def Let_def)
  then have "messageHandler cfg channelCid m st = Inr (report m3 ?st)"
    using assms(1,2) d by (simp add: messageHandler_def Let_def cidOf_def)
  with ev vd show ?thesis by (simp add: report_def)
qed

lemmas validating_eval = validating_def exampleResults_def newLauncher_def newStory_def
  testPass_def noMessage_def noErr_def failuresBucket_def successesBucket_def cidOf_def
  getCidGroup_def toStr_def objectPrototype_def decodable_def truthy_def

text \<open>
  With the story \<open>constructor\<close>, or the criteria \<open>toString\<close>, recorded for a
  group that has results, a \<open>test:pass\<close> is not classified: the handler throws.
\<close>

lemma test_pass_prototype_example:
  "messageHandler exampleConfig (0, 0) testPass recordedConstructor = Inl TypeError"
  "messageHandler exampleConfig (0, 0) testPass recordedToString = Inl TypeError"
  by (simp_all add: recordedConstructor_def recordedToString_def messageHandler_def
        decodeTitle_def validationMessage_def evaluateValidations_def get_def Let_def
        validating_eval)

subsection \<open>The block of every step event\<close>

subsection \<open>The failure of a test\<close>


















subsection \<open>The buffers of failed and broken steps\<close>

lemmas block_defs = currentStackBlock_def afterCommandBlock_def testStartBlock_def
  testFailBlock_def anyStepBlock_def stepStartBlock_def stepFailedBlock_def stepEndBlock_def
  validateBlock_def

lemmas message_eval = messageHandler_def decodeTitle_def executionMessage_def block_defs
  report_def getPatchedStack_def fixEmptyMessage_def isFiltered_def containStackFilter_def
  stackFilter_def handleAssertion_def withoutStackHead_def ensureResults_def
  removeLastNl_def trim_def isWhiteSpace_def join_js_def truthy_def toStr_def nl_def
  getCidGroup_def Let_def

lemmas step_eval = stepStart_def stepEnd_def validateFails_def noMessage_def noErr_def
  newLauncher_def newValidationState_def newStory_def exampleConfig_def
  validateFailure_def storyScreenshot_def pushScreenshot_def get_def has_def
  objectPrototype_def lastStatus_def setLastStatus_def reportedStatuses_def ofOption_def







subsection \<open>What the dispatch functions return\<close>

text \<open>
  C2, as stated, fails: once the interrupt routine has been triggered \<open>runSpecs\<close>
  returns \<open>true\<close> although a spec is pending and a worker is running.
\<close>

theorem interrupt_reports_drained_counterexample:
  "runSpecs exampleConfig interrupted = (interrupted, True)
   \<and> specs (schedule interrupted ! 0) = [''s'']
   \<and> getNumberOfRunningInstances interrupted = 1
   \<and> \<not> drainedSpecs interrupted"
  by (simp add: runSpecs_def interrupted_def newLauncher_def running_sum drainedSpecs_def)

text \<open>
  C2, amended. When the interrupt routine has been triggered, \<open>runTestcases\<close> and
  \<open>runSpecs\<close> return \<open>true\<close> at once and leave the launcher as it is. When it
  has not, each returns \<open>true\<close> if and only if, after its loop, the pending queue of
  every entry is empty and no instance is running; and \<open>endHandler\<close> (not in
  multiremote mode) resolves the promise of the phase if and only if that holds for the
  dispatch function of the phase.
\<close>

theorem dispatch_reports_drained:
  "(hasTriggeredExitRoutine st \<longrightarrow>
      runTestcases cfg st = Inr (st, True) \<and> runSpecs cfg st = (st, True))
   \<and> (\<not> hasTriggeredExitRoutine st \<longrightarrow>
      (\<forall>st' b. runTestcases cfg st = Inr (st', b) \<longrightarrow> b = drainedTestcases st')
      \<and> (\<forall>st' b. runSpecs cfg st = (st', b) \<longrightarrow> b = drainedSpecs st')
      \<and> (\<forall>c code st' r. \<not> multiremote cfg \<longrightarrow> endHandler cfg c code st = Inr (st', r) \<longrightarrow>
            (r \<noteq> None) = drained st'))"
proof (cases "hasTriggeredExitRoutine st")
  case True
  then show ?thesis by (simp add: runTestcases_def runSpecs_def)
next
  case False
  then show ?thesis
    using runTestcases_drained [of st cfg] runSpecs_drained [of st cfg]
      endHandler_resolves [of st cfg]
    by blast
qed

theorem dispatch_reports_drained_witness:
  "\<not> hasTriggeredExitRoutine oneSpec
   \<and> runSpecs exampleConfig oneSpec = (fst (runSpecs exampleConfig oneSpec), False)
   \<and> \<not> drainedSpecs (fst (runSpecs exampleConfig oneSpec))
   \<and> \<not> hasTriggeredExitRoutine oneTestcase
   \<and> (\<exists>st'. runTestcases exampleConfig oneTestcase = Inr (st', drainedTestcases st'))
   \<and> \<not> hasTriggeredExitRoutine lastWorker \<and> \<not> multiremote exampleConfig
   \<and> (\<exists>st'. endHandler exampleConfig (0, 0) 0 lastWorker = Inr (st', Some 0) \<and> drained st')
   \<and> hasTriggeredExitRoutine interrupted
   \<and> runSpecs exampleConfig interrupted = (interrupted, True)"
proof -
  have a: "\<not> hasTriggeredExitRoutine oneSpec" by (simp add: oneSpec_def newLauncher_def)
  have b: "runSpecs exampleConfig oneSpec = (fst (runSpecs exampleConfig oneSpec), False)"
    by (simp add: runSpecs_def specsLoop_eval oneSpec_def newLauncher_def exampleConfig_def)
  have c: "\<not> hasTriggeredExitRoutine oneTestcase" by (simp add: oneTestcase_def newLauncher_def)
  obtain st' b' where d: "runTestcases exampleConfig oneTestcase = Inr (st', b')"
    using runTestcases_total [of exampleConfig oneTestcase] by (auto simp: oneTestcase_def)
  have e: "hasTriggeredExitRoutine interrupted" by (simp add: interrupted_def)
  have f: "\<not> hasTriggeredExitRoutine lastWorker \<and> \<not> multiremote exampleConfig"
    by (simp add: lastWorker_def newLauncher_def exampleConfig_def)
  obtain st2 where g: "endHandler exampleConfig (0, 0) 0 lastWorker = Inr (st2, Some 0)"
    by (simp add: endHandler_eval specsLoop_eval lastWorker_def newLauncher_def exampleConfig_def)
  from dispatch_reports_drained [of oneSpec exampleConfig] a b
  have 1: "\<not> drainedSpecs (fst (runSpecs exampleConfig oneSpec))" by metis
  from dispatch_reports_drained [of oneTestcase exampleConfig] c d
  have 2: "b' = drainedTestcases st'" by blast
  from dispatch_reports_drained [of interrupted exampleConfig] e
  have 3: "runSpecs exampleConfig interrupted = (interrupted, True)" by blast
  from dispatch_reports_drained [of lastWorker exampleConfig] f g
  have 4: "drained st2" by blast
  from a b c d e f g 1 2 3 4 show ?thesis by blast
qed

subsection \<open>Bail-out\<close>

lemma testcasesPass_bailed:
  "\<not> bailFilter cfg st \<Longrightarrow>
     testcasesPass cfg st = (if schedule st = [] then st else clearTestcases st, False)"
  by (simp add: testcasesPass_def schedulableTestcases_def sort_js_byRunningInstances)

lemma testcasesLoop_bailed:
  "\<not> bailFilter cfg st \<Longrightarrow>
     testcasesLoop cfg st =
       (if getNumberOfRunningInstances st < maxInstances cfg \<and> schedule st \<noteq> []
        then clearTestcases st else st)"
proof (cases "getNumberOfRunningInstances st < maxInstances cfg")
  case False
  then show ?thesis by (simp add: testcasesLoop_stop)
next
  case True
  assume "\<not> bailFilter cfg st"
  then have p: "testcasesPass cfg st = (if schedule st = [] then st else clearTestcases st, False)"
    by (rule testcasesPass_bailed)
  then have "testcasesLoop cfg st = fst (testcasesPass cfg st)"
    using True by (intro testcasesLoop_break) simp_all
  with p True show ?thesis by simp
qed

lemma bailFilter_reached:
  "bail cfg = Some n \<Longrightarrow> 1 \<le> n \<Longrightarrow> n \<le> runnerFailed st \<Longrightarrow> \<not> bailFilter cfg st"
  by (simp add: bailFilter_def)

lemma runTestcases_bailed:
  assumes "bail cfg = Some n" and "1 \<le> n" and "n \<le> runnerFailed st"
    and "runTestcases cfg st = Inr (st', r)"
  shows "processes st' = processes st
     \<and> map runningInstances (schedule st') = map runningInstances (schedule st)
     \<and> map availableInstances (schedule st') = map availableInstances (schedule st)
     \<and> runnerFailed st' = runnerFailed st
     \<and> (\<not> hasTriggeredExitRoutine st \<and> getNumberOfRunningInstances st < maxInstances cfg
          \<longrightarrow> (\<forall>a\<in>set (schedule st'). testcases a = []))"
proof -
  have nb: "\<not> bailFilter cfg st" using assms(1-3) by (rule bailFilter_reached)
  have s: "st' = (if hasTriggeredExitRoutine st then st else testcasesLoop cfg st)"
    using assms(4) by (rule runTestcases_state)
  show ?thesis
  proof (cases "hasTriggeredExitRoutine st")
    case True
    with s show ?thesis by simp
  next
    case False
    with s nb show ?thesis
      by (auto simp: testcasesLoop_bailed clearTestcases_def comp_def)
  qed
qed

text \<open>
  C3, as stated, fails for the second phase: \<open>runSpecs\<close> has no bail filter. With
  \<open>bail = 1\<close> and one failed worker it still dispatches the pending spec.
\<close>

theorem bail_in_spec_phase_counterexample:
  "bail bailConfig = Some 1 \<and> runnerFailed failedOnce = 1
   \<and> processes failedOnce = []
   \<and> processes (fst (runSpecs bailConfig failedOnce)) = [((0, 0), [''s''])]"
  by (simp add: runSpecs_def specsLoop_eval failedOnce_def oneSpec_def newLauncher_def
        bailConfig_def exampleConfig_def)

text \<open>
  C3, amended to the first phase. Let \<open>bail\<close> be a number \<open>n \<ge> 1\<close>. Once
  \<open>runnerFailed\<close> has reached \<open>n\<close>, \<open>runTestcases\<close> starts no worker and
  leaves the counters of every entry as they are; when its loop is entered (no interrupt,
  fewer than \<open>maxInstances\<close> instances running) it empties \<open>testcases\<close> of
  every entry. A worker exit that finds or brings \<open>runnerFailed\<close> at \<open>n\<close> starts
  no worker either, keeps \<open>runnerFailed\<close> at \<open>n\<close> or above, and only takes the
  exited worker off the running instances of its entry.
\<close>

theorem bail_stops_testcases:
  assumes "bail cfg = Some n" and "1 \<le> n"
  shows "(n \<le> runnerFailed st \<longrightarrow> runTestcases cfg st = Inr (st', r) \<longrightarrow>
            processes st' = processes st
          \<and> map runningInstances (schedule st') = map runningInstances (schedule st)
          \<and> map availableInstances (schedule st') = map availableInstances (schedule st)
          \<and> (\<not> hasTriggeredExitRoutine st \<and> getNumberOfRunningInstances st < maxInstances cfg
               \<longrightarrow> (\<forall>a\<in>set (schedule st'). testcases a = [])))
       \<and> (endHandlerRunFunc st = RunTestcases \<longrightarrow> \<not> multiremote cfg \<longrightarrow>
            n \<le> runnerFailed (recordExit code st) \<longrightarrow>
            endHandler cfg c code st = Inr (st2, r2) \<longrightarrow>
              processes st2 = processes st \<and> n \<le> runnerFailed st2
            \<and> map runningInstances (schedule st2) =
                (map runningInstances (schedule st))
                  [fst c := runningInstances (schedule st ! fst c) - 1])"
proof -
  have 1: "n \<le> runnerFailed st \<longrightarrow> runTestcases cfg st = Inr (st', r) \<longrightarrow>
            processes st' = processes st
          \<and> map runningInstances (schedule st') = map runningInstances (schedule st)
          \<and> map availableInstances (schedule st') = map availableInstances (schedule st)
          \<and> (\<not> hasTriggeredExitRoutine st \<and> getNumberOfRunningInstances st < maxInstances cfg
               \<longrightarrow> (\<forall>a\<in>set (schedule st'). testcases a = []))"
    using runTestcases_bailed [OF assms] by blast
  have 2: "processes st2 = processes st \<and> n \<le> runnerFailed st2
            \<and> map runningInstances (schedule st2) =
                (map runningInstances (schedule st))
                  [fst c := runningInstances (schedule st ! fst c) - 1]"
    if f: "endHandlerRunFunc st = RunTestcases" and m: "\<not> multiremote cfg"
      and b: "n \<le> runnerFailed (recordExit code st)"
      and e: "endHandler cfg c code st = Inr (st2, r2)"
  proof -
    let ?s2 = "releaseInstance (fst c) (recordExit code st)"
    have i: "fst c < length (schedule st)"
      using e m by (auto simp: endHandler_def Let_def recordExit_def split: if_splits)
    have f2: "endHandlerRunFunc ?s2 = RunTestcases"
      using f by (simp add: releaseInstance_def recordExit_def Let_def)
    have b2: "n \<le> runnerFailed ?s2"
      using b by (simp add: releaseInstance_def Let_def)
    obtain s3 d where c3: "runTestcases cfg ?s2 = Inr (s3, d)"
      using e m i f2 by (auto simp: endHandler_def Let_def callRunFunc_def recordExit_def
          split: sum.splits if_splits)
    have r3: "processes s3 = processes ?s2
        \<and> map runningInstances (schedule s3) = map runningInstances (schedule ?s2)
        \<and> runnerFailed s3 = runnerFailed ?s2"
      using runTestcases_bailed [OF assms b2 c3] by blast
    have "st2 = s3 \<or> st2 = fst (resolveRun s3)"
      using e m i f2 c3 by (cases d) (auto simp: endHandler_def Let_def callRunFunc_def recordExit_def)
    then have q: "processes st2 = processes s3 \<and> schedule st2 = schedule s3
        \<and> runnerFailed st2 = runnerFailed s3"
      by (auto simp: resolveRun_def)
    have "map runningInstances (schedule ?s2) =
        (map runningInstances (schedule st))[fst c := runningInstances (schedule st ! fst c) - 1]"
      by (simp add: releaseInstance_def recordExit_def Let_def map_update)
    moreover have "processes ?s2 = processes st"
      by (simp add: releaseInstance_def recordExit_def Let_def)
    ultimately show ?thesis using q r3 b2 by simp
  qed
  from 1 2 show ?thesis by blast
qed

theorem bail_stops_testcases_witness:
  "bail bailConfig = Some 1 \<and> (1::int) \<le> 1 \<and> 1 \<le> runnerFailed failedOnceTestcase
   \<and> \<not> hasTriggeredExitRoutine failedOnceTestcase
   \<and> getNumberOfRunningInstances failedOnceTestcase < maxInstances bailConfig
   \<and> (\<exists>st'. runTestcases bailConfig failedOnceTestcase = Inr (st', True)
          \<and> processes st' = [] \<and> map testcases (schedule st') = [[]])"
proof -
  have a: "bail bailConfig = Some 1" by (simp add: bailConfig_def)
  have b: "1 \<le> runnerFailed failedOnceTestcase \<and> \<not> hasTriggeredExitRoutine failedOnceTestcase
     \<and> getNumberOfRunningInstances failedOnceTestcase < maxInstances bailConfig
     \<and> processes failedOnceTestcase = []"
    by (simp add: failedOnceTestcase_def oneTestcase_def newLauncher_def bailConfig_def
          exampleConfig_def running_sum)
  obtain st' where c: "runTestcases bailConfig failedOnceTestcase = Inr (st', True)"
    by (simp add: endHandler_eval testcasesLoop_eval failedOnceTestcase_def oneTestcase_def
          newLauncher_def bailConfig_def exampleConfig_def)
  from bail_stops_testcases [OF a, of failedOnceTestcase st' True] b c
  have d: "processes st' = [] \<and> (\<forall>a\<in>set (schedule st'). testcases a = [])" by simp
  have "length (schedule st') = 1"
    using runTestcases_state [OF c] length_testcasesLoop [of bailConfig failedOnceTestcase]
    by (simp add: failedOnceTestcase_def oneTestcase_def newLauncher_def split: if_splits)
  then obtain e where "schedule st' = [e]"
    by (cases "schedule st'") auto
  with d have "map testcases (schedule st') = [[]]" by simp
  with a b c d show ?thesis by simp
qed

subsection \<open>Slot conservation\<close>

text \<open>
  C4. In every state of a phase the sum \<open>availableInstances + runningInstances\<close> of
  every entry is the instance limit of its capability, the value it has at the start of
  the phase. A pass of a dispatch loop that dispatches takes one from
  \<open>availableInstances\<close> and adds one to \<open>runningInstances\<close> of one entry; a
  pass that ends in \<open>break\<close> changes no counter. A worker exit, handled by
  \<open>endHandler\<close> in a state of the phase, leads to a state of the phase; it adds one
  to \<open>availableInstances\<close> and takes one from \<open>runningInstances\<close> of the
  entry of the exited worker, and then, for every entry, takes from
  \<open>availableInstances\<close> and adds to \<open>runningInstances\<close> the number of workers
  that the dispatch function it calls has started for the entry; an exit of a worker
  whose id names no entry throws. A call of the dispatch function alone moves just these
  numbers. In multiremote mode a worker exit changes no counter; nor do an interrupt and a
  message.
\<close>

theorem slot_conservation:
  "(reachable cfg capabilities st \<longrightarrow> slots st = map (instanceLimit cfg) capabilities)
   \<and> (testcasesPass cfg st = (st', True) \<or> specsPass cfg st = (st', True) \<longrightarrow>
        (\<exists>i<length (schedule st). counters st' = (counters st)
           [i := (availableInstances (schedule st ! i) - 1, runningInstances (schedule st ! i) + 1)]))
   \<and> (testcasesPass cfg st = (st', False) \<or> specsPass cfg st = (st', False) \<longrightarrow>
        counters st' = counters st)
   \<and> (reachable cfg capabilities st \<and> \<not> multiremote cfg
        \<and> endHandler cfg c code st = Inr (st', r) \<longrightarrow>
        reachable cfg capabilities st' \<and> fst c < length (schedule st)
        \<and> length (schedule st') = length (schedule st)
        \<and> (\<forall>i<length (schedule st).
              started st i \<le> started st' i
            \<and> availableInstances (schedule st' ! i)
                = availableInstances (schedule st ! i) + (if i = fst c then 1 else 0)
                    - (started st' i - started st i)
            \<and> runningInstances (schedule st' ! i)
                = runningInstances (schedule st ! i) - (if i = fst c then 1 else 0)
                    + (started st' i - started st i)))
   \<and> (\<not> multiremote cfg \<and> \<not> fst c < length (schedule st) \<longrightarrow>
        endHandler cfg c code st = Inl TypeError)
   \<and> (reachable cfg capabilities st \<and> callRunFunc cfg st = Inr (st', b) \<longrightarrow>
        reachable cfg capabilities st' \<and> length (schedule st') = length (schedule st)
        \<and> (\<forall>i<length (schedule st).
              started st i \<le> started st' i
            \<and> availableInstances (schedule st' ! i)
                = availableInstances (schedule st ! i) - (started st' i - started st i)
            \<and> runningInstances (schedule st' ! i)
                = runningInstances (schedule st ! i) + (started st' i - started st i)))
   \<and> (multiremote cfg \<and> endHandler cfg c code st = Inr (st', r) \<longrightarrow> counters st' = counters st)
   \<and> counters (fst (exitHandler st)) = counters st
   \<and> (messageHandler cfg c m st = Inr st' \<longrightarrow> counters st' = counters st)"
proof -
  have 1: "reachable cfg capabilities st \<longrightarrow> slots st = map (instanceLimit cfg) capabilities"
    by (simp add: reachable_slots)
  have 2: "testcasesPass cfg st = (st', True) \<or> specsPass cfg st = (st', True) \<longrightarrow>
        (\<exists>i<length (schedule st). counters st' = (counters st)
           [i := (availableInstances (schedule st ! i) - 1, runningInstances (schedule st ! i) + 1)])"
    using counters_testcasesPass_True [of cfg st st'] counters_specsPass_True [of cfg st st']
    by blast
  have 3: "testcasesPass cfg st = (st', False) \<or> specsPass cfg st = (st', False) \<longrightarrow>
        counters st' = counters st"
    using counters_testcasesPass_False counters_specsPass_False by blast
  have 4: "reachable cfg capabilities st' \<and> fst c < length (schedule st)
        \<and> length (schedule st') = length (schedule st)
        \<and> (\<forall>i<length (schedule st).
              started st i \<le> started st' i
            \<and> availableInstances (schedule st' ! i)
                = availableInstances (schedule st ! i) + (if i = fst c then 1 else 0)
                    - (started st' i - started st i)
            \<and> runningInstances (schedule st' ! i)
                = runningInstances (schedule st ! i) - (if i = fst c then 1 else 0)
                    + (started st' i - started st i))"
    if h: "reachable cfg capabilities st" "\<not> multiremote cfg"
      "endHandler cfg c code st = Inr (st', r)"
  proof -
    have x: "indexed st" using h(1) by (rule reachable_indexed)
    have "fst c < length (schedule st)" using ledger_endHandler [OF x h(2,3)] by simp
    moreover have "reachable cfg capabilities st'" using reachable_endHandler [OF h(1,3)] .
    ultimately show ?thesis
      using endHandler_accounting [OF x h(2,3)] started_endHandler [OF h(3)] by simp
  qed
  have 5: "\<not> multiremote cfg \<and> \<not> fst c < length (schedule st) \<longrightarrow>
        endHandler cfg c code st = Inl TypeError"
    by (simp add: endHandler_out_of_range)
  have 6: "reachable cfg capabilities st' \<and> length (schedule st') = length (schedule st)
        \<and> (\<forall>i<length (schedule st).
              started st i \<le> started st' i
            \<and> availableInstances (schedule st' ! i)
                = availableInstances (schedule st ! i) - (started st' i - started st i)
            \<and> runningInstances (schedule st' ! i)
                = runningInstances (schedule st ! i) + (started st' i - started st i))"
    if h: "reachable cfg capabilities st" "callRunFunc cfg st = Inr (st', b)"
  proof -
    have x: "indexed st" using h(1) by (rule reachable_indexed)
    have "reachable cfg capabilities st'" using reachable_callRunFunc [OF h] .
    moreover have "length (ledger st') = length (ledger st)"
      using ledger_callRunFunc [OF x h(2)] by simp
    then have "length (schedule st') = length (schedule st)" by (simp add: ledger_def)
    ultimately show ?thesis
      using callRunFunc_accounting(1,2) [OF x h(2)] started_callRunFunc [OF h(2)] by simp
  qed
  have 7: "multiremote cfg \<and> endHandler cfg c code st = Inr (st', r) \<longrightarrow> counters st' = counters st"
    by (auto simp: endHandler_multiremote counters_def resolveRun_def recordExit_def)
  have 8: "counters (fst (exitHandler st)) = counters st" by (simp add: counters_others)
  have 9: "messageHandler cfg c m st = Inr st' \<longrightarrow> counters st' = counters st"
    using counters_messageHandler by blast
  from 1 2 3 4 5 6 7 8 9 show ?thesis by blast
qed

theorem slot_conservation_witness:
  "reachable exampleConfig twoCapabilities (fst (runSpecs exampleConfig startOfSpecs))
   \<and> slots (fst (runSpecs exampleConfig startOfSpecs)) = [2, 2]
   \<and> counters startOfSpecs = [(2, 0), (2, 0)]
   \<and> snd (specsPass exampleConfig startOfSpecs)
   \<and> counters (fst (specsPass exampleConfig startOfSpecs)) = [(1, 1), (2, 0)]
   \<and> counters (fst (runSpecs exampleConfig startOfSpecs)) = [(0, 2), (2, 0)]
   \<and> map (started (fst (runSpecs exampleConfig startOfSpecs))) [0, 1] = [2, 0]
   \<and> \<not> multiremote exampleConfig
   \<and> (\<exists>st'. endHandler exampleConfig (0, 0) 0 (fst (runSpecs exampleConfig startOfSpecs))
                = Inr (st', None)
          \<and> reachable exampleConfig twoCapabilities st'
          \<and> map (started st') [0, 1] = [2, 1]
          \<and> counters st' = [(1, 1), (1, 1)])"
proof -
  let ?s = "fst (runSpecs exampleConfig startOfSpecs)"
  have m: "map (instanceLimit exampleConfig) twoCapabilities = [2, 2]"
    by (simp add: twoCapabilities_def instanceLimit_def exampleConfig_def)
  from slot_conservation [where cfg = exampleConfig and capabilities = twoCapabilities
      and st = ?s, THEN conjunct1] reachable_runSpecs_example m
  have 1: "slots ?s = [2, 2]" by simp
  have 2: "counters ?s = [(0, 2), (2, 0)]"
    by (simp add: counters_def runSpecs_def specsLoop_eval example_eval)
  have 3: "counters startOfSpecs = [(2, 0), (2, 0)]"
    by (simp add: counters_def example_eval)
  have 4: "snd (specsPass exampleConfig startOfSpecs)"
    by (simp add: specsLoop_eval example_eval)
  have 5: "counters (fst (specsPass exampleConfig startOfSpecs)) = [(1, 1), (2, 0)]"
    by (simp add: counters_def specsLoop_eval example_eval)
  have 6: "map (started ?s) [0, 1] = [2, 0]"
    by (simp add: started_def getCidGroup_def runSpecs_def specsLoop_eval example_eval)
  have 7: "\<not> multiremote exampleConfig" by (simp add: exampleConfig_def)
  obtain st' where e: "endHandler exampleConfig (0, 0) 0 ?s = Inr (st', None)"
    and p: "map (started st') [0, 1] = [2, 1]"
    by (simp add: started_def getCidGroup_def endHandler_eval runSpecs_def specsLoop_eval
          example_eval)
  have l: "length (schedule ?s) = 2 \<and> map availableInstances (schedule ?s) = [0, 2]
      \<and> map runningInstances (schedule ?s) = [2, 0]"
    by (simp add: runSpecs_def specsLoop_eval example_eval)
  note x = slot_conservation [where cfg = exampleConfig and capabilities = twoCapabilities
      and st = ?s and st' = st' and c = "(0, 0)" and code = 0 and r = None,
      THEN conjunct2, THEN conjunct2, THEN conjunct2, THEN conjunct1]
  from x reachable_runSpecs_example 7 e
  have r: "reachable exampleConfig twoCapabilities st'"
    and n: "length (schedule st') = length (schedule ?s)"
    and a: "\<forall>i<length (schedule ?s).
              started ?s i \<le> started st' i
            \<and> availableInstances (schedule st' ! i)
                = availableInstances (schedule ?s ! i) + (if i = fst (0 :: nat, 0 :: nat) then 1 else 0)
                    - (started st' i - started ?s i)
            \<and> runningInstances (schedule st' ! i)
                = runningInstances (schedule ?s ! i) - (if i = fst (0 :: nat, 0 :: nat) then 1 else 0)
                    + (started st' i - started ?s i)"
    by blast+
  have l0: "0 < length (schedule ?s)" "1 < length (schedule ?s)" using l by simp_all
  have v: "availableInstances (schedule ?s ! 0) = 0" "runningInstances (schedule ?s ! 0) = 2"
      "availableInstances (schedule ?s ! 1) = 2" "runningInstances (schedule ?s ! 1) = 0"
    by (simp_all add: runSpecs_def specsLoop_eval example_eval)
  have q: "started st' 0 = 2" "started st' 1 = 1" "started ?s 0 = 2" "started ?s 1 = 0"
    using p 6 by simp_all
  from a [rule_format, OF l0(1)] v q
  have c0: "availableInstances (schedule st' ! 0) = 1" "runningInstances (schedule st' ! 0) = 1"
    by simp_all
  from a [rule_format, OF l0(2)] v q
  have c1: "availableInstances (schedule st' ! 1) = 1" "runningInstances (schedule st' ! 1) = 1"
    by simp_all
  from n l have "length (schedule st') = 2" by simp
  then obtain e0 e1 where s': "schedule st' = [e0, e1]"
    by (metis (no_types) length_0_conv length_Suc_conv numeral_2_eq_2)
  with c0 c1 have 8: "counters st' = [(1, 1), (1, 1)]" by (simp add: counters_def)
  show ?thesis
    by (intro conjI exI [of _ st']) (rule reachable_runSpecs_example 1 2 3 4 5 6 7 e r p 8)+
qed
subsection \<open>Concurrency bound\<close>

text \<open>
  C5. Let \<open>maxInstances\<close> and the instance limit of every capability
  (\<open>capabilities.maxInstances || config.maxInstancesPerCapability\<close>) be at least 0.
  Then in every state of a phase, between any two passes of a dispatch loop as well, the
  running instances of all entries together are at most \<open>config.maxInstances\<close>, and
  the running instances of every entry are at most the instance limit of its capability.
\<close>

theorem concurrency_bound:
  assumes "0 \<le> maxInstances cfg"
    and "\<forall>c\<in>set capabilities. 0 \<le> instanceLimit cfg c"
    and "reachable cfg capabilities st"
  shows "getNumberOfRunningInstances st \<le> maxInstances cfg
     \<and> length (schedule st) = length capabilities
     \<and> (\<forall>i<length capabilities.
           runningInstances (schedule st ! i) \<le> instanceLimit cfg (capabilities ! i))"
proof -
  have s: "slots st = map (instanceLimit cfg) capabilities"
    using assms(3) by (rule reachable_slots)
  then have l: "length (schedule st) = length capabilities"
    by (metis length_map slots_def)
  have "runningInstances (schedule st ! i) \<le> instanceLimit cfg (capabilities ! i)"
    if i: "i < length capabilities" for i
  proof -
    have "availableInstances (schedule st ! i) + runningInstances (schedule st ! i)
        = instanceLimit cfg (capabilities ! i)"
      using s i l by (metis (mono_tags, lifting) nth_map slots_def)
    moreover have "0 \<le> availableInstances (schedule st ! i)"
      using available_nonneg [OF assms(2,3)] i l counters_nth [of i st]
      by (metis fst_conv nth_mem length_map counters_def)
    ultimately show ?thesis by simp
  qed
  with running_bounded [OF assms(1,3)] l show ?thesis by blast
qed

theorem concurrency_bound_witness:
  "0 \<le> maxInstances exampleConfig
   \<and> 0 \<le> instanceLimit exampleConfig (twoCapabilities ! 0)
   \<and> 0 \<le> instanceLimit exampleConfig (twoCapabilities ! 1)
   \<and> reachable exampleConfig twoCapabilities (fst (runSpecs exampleConfig startOfSpecs))
   \<and> getNumberOfRunningInstances (fst (runSpecs exampleConfig startOfSpecs)) \<le> maxInstances exampleConfig
   \<and> runningInstances (schedule (fst (runSpecs exampleConfig startOfSpecs)) ! 0)
        \<le> instanceLimit exampleConfig (twoCapabilities ! 0)
   \<and> runningInstances (schedule (fst (runSpecs exampleConfig startOfSpecs)) ! 1)
        \<le> instanceLimit exampleConfig (twoCapabilities ! 1)
   \<and> map runningInstances (schedule (fst (runSpecs exampleConfig startOfSpecs))) = [2, 0]"
proof -
  have a: "0 \<le> maxInstances exampleConfig" by (simp add: exampleConfig_def)
  have b: "\<forall>c\<in>set twoCapabilities. 0 \<le> instanceLimit exampleConfig c"
    by (simp add: twoCapabilities_def instanceLimit_def exampleConfig_def)
  have l: "length twoCapabilities = 2" by (simp add: twoCapabilities_def)
  have v: "map runningInstances (schedule (fst (runSpecs exampleConfig startOfSpecs))) = [2, 0]"
    by (simp add: runSpecs_def specsLoop_eval example_eval)
  from concurrency_bound [OF a b reachable_runSpecs_example] l
  have "getNumberOfRunningInstances (fst (runSpecs exampleConfig startOfSpecs)) \<le> maxInstances exampleConfig
     \<and> runningInstances (schedule (fst (runSpecs exampleConfig startOfSpecs)) ! 0)
          \<le> instanceLimit exampleConfig (twoCapabilities ! 0)
     \<and> runningInstances (schedule (fst (runSpecs exampleConfig startOfSpecs)) ! 1)
          \<le> instanceLimit exampleConfig (twoCapabilities ! 1)"
    by simp
  with a b v reachable_runSpecs_example show ?thesis by (simp add: twoCapabilities_def)
qed



subsection \<open>Which entry is dispatched\<close>

text \<open>
  C6. The comparator of the sort never returns a negative number, so the sort leaves the
  candidates in the order of the schedule and the loop dispatches the first schedulable
  entry, whatever its number of running instances. With two capabilities of two
  instances each and \<open>maxInstances = 2\<close>: after the first pass entry 0 runs one
  instance and entry 1 none, both are schedulable, and the second pass takes entry 0
  again. Both workers of the phase go to capability 0, in the second phase and in the
  first.
\<close>

theorem first_schedulable_is_dispatched:
  "map (\<lambda>a. (specs a, availableInstances a, runningInstances a)) (schedule startOfSpecs)
     = [([''a1'', ''a2''], 2, 0), ([''b1'', ''b2''], 2, 0)]
   \<and> map (\<lambda>(i, a). (i, runningInstances a))
        (schedulableSpecs exampleConfig (fst (specsPass exampleConfig startOfSpecs)))
     = [(0, 1), (1, 0)]
   \<and> processes (fst (runSpecs exampleConfig startOfSpecs))
     = [((0, 0), [''a1'']), ((0, 1), [''a2''])]
   \<and> map runningInstances (schedule (fst (runSpecs exampleConfig startOfSpecs))) = [2, 0]
   \<and> (\<exists>st'. runTestcases exampleConfig startOfTestcases = Inr (st', False)
         \<and> processes st' = [((0, 0), [''ta1'']), ((0, 1), [''ta2''])]
         \<and> map runningInstances (schedule st') = [2, 0])"
proof -
  have a: "map (\<lambda>a. (specs a, availableInstances a, runningInstances a)) (schedule startOfSpecs)
     = [([''a1'', ''a2''], 2, 0), ([''b1'', ''b2''], 2, 0)]"
    by (simp add: startOfSpecs_def schedule_eval exampleConfig_def newLauncher_def)
  have b: "map (\<lambda>(i, a). (i, runningInstances a))
        (schedulableSpecs exampleConfig (fst (specsPass exampleConfig startOfSpecs)))
     = [(0, 1), (1, 0)]"
    by (simp add: specsLoop_eval startOfSpecs_def schedule_eval exampleConfig_def newLauncher_def)
  have c: "processes (fst (runSpecs exampleConfig startOfSpecs))
     = [((0, 0), [''a1'']), ((0, 1), [''a2''])]"
    by (simp add: runSpecs_def specsLoop_eval startOfSpecs_def schedule_eval
          exampleConfig_def newLauncher_def)
  have d: "map runningInstances (schedule (fst (runSpecs exampleConfig startOfSpecs))) = [2, 0]"
    by (simp add: runSpecs_def specsLoop_eval startOfSpecs_def schedule_eval
          exampleConfig_def newLauncher_def)
  have e: "\<exists>st'. runTestcases exampleConfig startOfTestcases = Inr (st', False)
         \<and> processes st' = [((0, 0), [''ta1'']), ((0, 1), [''ta2''])]
         \<and> map runningInstances (schedule st') = [2, 0]"
    by (simp add: runTestcases_def testcasesLoop_eval startOfTestcases_def schedule_eval
          exampleConfig_def newLauncher_def)
  from a b c d e show ?thesis by blast
qed

subsection \<open>The empty schedule\<close>

text \<open>
  C10. On an empty schedule \<open>getNumberOfRunningInstances\<close> and
  \<open>getNumberOfSpecsLeft\<close> return 0. \<open>getNumberOfTestcasesLeft\<close> reduces
  without an initial value: it throws exactly on the empty schedule and returns a number
  on every other. \<open>runTestcases\<close> calls it after its loop, so it throws exactly on
  an empty schedule (unless the interrupt flag made it return before the loop) and
  returns on every non-empty one.
\<close>

theorem empty_schedule_accounting:
  "getNumberOfRunningInstances (st\<lparr>schedule := []\<rparr>) = 0
   \<and> getNumberOfSpecsLeft (st\<lparr>schedule := []\<rparr>) = 0
   \<and> (getNumberOfTestcasesLeft st = Inl TypeError) = (schedule st = [])
   \<and> (\<exists>n. getNumberOfTestcasesLeft st = Inr n) = (schedule st \<noteq> [])
   \<and> (runTestcases cfg st = Inl TypeError) = (schedule st = [] \<and> \<not> hasTriggeredExitRoutine st)
   \<and> (\<exists>r. runTestcases cfg st = Inr r) = (schedule st \<noteq> [] \<or> hasTriggeredExitRoutine st)"
proof -
  have a: "getNumberOfRunningInstances (st\<lparr>schedule := []\<rparr>) = 0"
    by (simp add: getNumberOfRunningInstances_def)
  have b: "getNumberOfSpecsLeft (st\<lparr>schedule := []\<rparr>) = 0"
    by (simp add: getNumberOfSpecsLeft_def)
  have c: "(\<exists>n. getNumberOfTestcasesLeft st = Inr n) = (schedule st \<noteq> [])"
    by (cases "schedule st") (simp_all add: getNumberOfTestcasesLeft_def reduce1_def)
  have "(runTestcases cfg st = Inl TypeError) = (\<not> (\<exists>r. runTestcases cfg st = Inr r))"
    by (cases "runTestcases cfg st") (auto dest: runTestcases_throws)
  then have d: "(runTestcases cfg st = Inl TypeError)
      = (schedule st = [] \<and> \<not> hasTriggeredExitRoutine st)"
    using runTestcases_total [of cfg st] by blast
  show ?thesis
    using a b c d runTestcases_total [of cfg st] getNumberOfTestcasesLeft_error [of st] by blast
qed

theorem empty_schedule_accounting_witness:
  "getNumberOfTestcasesLeft newLauncher = Inl TypeError
   \<and> runTestcases exampleConfig newLauncher = Inl TypeError
   \<and> (\<exists>n. getNumberOfTestcasesLeft oneTestcase = Inr n)
   \<and> (\<exists>r. runTestcases exampleConfig oneTestcase = Inr r)
   \<and> (\<exists>r. runTestcases exampleConfig (newLauncher\<lparr>hasTriggeredExitRoutine := True\<rparr>) = Inr r)"
  using empty_schedule_accounting [of newLauncher exampleConfig]
    empty_schedule_accounting [of oneTestcase exampleConfig]
    empty_schedule_accounting [of "newLauncher\<lparr>hasTriggeredExitRoutine := True\<rparr>" exampleConfig]
  by (simp add: newLauncher_def oneTestcase_def)

subsection \<open>The verdict of a test of the second phase\<close>




subsection \<open>The status of a step\<close>

text \<open>
  C7. At a \<open>step:end\<close> the handler reads the status of a parent step from the last
  entry of \<open>levelStatus\<close> (\<open>levelStatus[levelStatus.length - 1]\<close>, under the
  comment that the result of a parent step is defined by the results of its children).
  The array is emptied only when the group is back at level 0, so its last entry belongs
  to the deepest level that the test has reached so far, not to the level below the step
  that ends.

  In the first test below a validation fails in \<open>A\<close>, the first child of \<open>P\<close>.
  When \<open>P\<close> ends the group is at level 1 and \<open>levelStatus\<close> is
  \<open>[passed, failed, passed]\<close>: the level below \<open>P\<close> holds \<open>failed\<close>, the
  last entry is the \<open>passed\<close> of \<open>G\<close>, and \<open>P\<close> is reported as
  \<open>passed\<close>. In the second test the validation fails in \<open>G\<close>, a child of
  \<open>A\<close>. When \<open>B\<close>, which has no child, ends, \<open>levelStatus\<close> is
  \<open>[passed, passed, failed]\<close> with the \<open>failed\<close> that \<open>G\<close> has left, and
  \<open>B\<close> is reported as \<open>failed\<close>.
\<close>

theorem step_end_reads_last_level:
  "map_sum id reportedStatuses (handleMessages exampleConfig (0, 0) failedChild newLauncher)
     = Inr [(''step:start'', None), (''step:start'', None), (''step:end'', Some Failed),
            (''step:start'', None), (''step:start'', None), (''step:end'', Some Passed),
            (''step:end'', Some Passed), (''step:end'', Some Passed)]
   \<and> map_sum id (\<lambda>st. map_option (\<lambda>ss. (stepLevel ss, levelStatus ss)) (stepStates st 0))
        (handleMessages exampleConfig (0, 0) (butlast failedChild) newLauncher)
     = Inr (Some (1, [Passed, Failed, Passed]))
   \<and> map_sum id reportedStatuses (handleMessages exampleConfig (0, 0) failedGrandchild newLauncher)
     = Inr [(''step:start'', None), (''step:start'', None), (''step:start'', None),
            (''step:end'', Some Failed), (''step:end'', Some Failed), (''step:start'', None),
            (''step:end'', Some Failed), (''step:end'', Some Failed)]
   \<and> map_sum id (\<lambda>st. map_option (\<lambda>ss. (stepLevel ss, levelStatus ss)) (stepStates st 0))
        (handleMessages exampleConfig (0, 0) (take 7 failedGrandchild) newLauncher)
     = Inr (Some (2, [Passed, Passed, Failed]))"
proof -
  have 1: "map_sum id reportedStatuses (handleMessages exampleConfig (0, 0) failedChild newLauncher)
     = Inr [(''step:start'', None), (''step:start'', None), (''step:end'', Some Failed),
            (''step:start'', None), (''step:start'', None), (''step:end'', Some Passed),
            (''step:end'', Some Passed), (''step:end'', Some Passed)]"
    by (simp add: failedChild_def message_eval step_eval)
  have 2: "map_sum id (\<lambda>st. map_option (\<lambda>ss. (stepLevel ss, levelStatus ss)) (stepStates st 0))
        (handleMessages exampleConfig (0, 0) (butlast failedChild) newLauncher)
     = Inr (Some (1, [Passed, Failed, Passed]))"
    by (simp add: failedChild_def message_eval step_eval)
  have 3: "map_sum id reportedStatuses (handleMessages exampleConfig (0, 0) failedGrandchild newLauncher)
     = Inr [(''step:start'', None), (''step:start'', None), (''step:start'', None),
            (''step:end'', Some Failed), (''step:end'', Some Failed), (''step:start'', None),
            (''step:end'', Some Failed), (''step:end'', Some Failed)]"
    by (simp add: failedGrandchild_def message_eval step_eval)
  have 4: "map_sum id (\<lambda>st. map_option (\<lambda>ss. (stepLevel ss, levelStatus ss)) (stepStates st 0))
        (handleMessages exampleConfig (0, 0) (take 7 failedGrandchild) newLauncher)
     = Inr (Some (2, [Passed, Passed, Failed]))"
    by (simp add: failedGrandchild_def message_eval step_eval)
  from 1 2 3 4 show ?thesis by (intro conjI)
qed
subsection \<open>The failure of a test\<close>



subsection \<open>Classifying twice\<close>

text \<open>
  C9. \<open>evaluateValidations\<close> returns the launcher it was given, so it leaves
  \<open>validationResults\<close> as it is, and a second call for the same story and criteria,
  on the message and the launcher that the first call returned, returns the same status.
  More generally, the status (or the error) depends only on the validation results, the
  group of the message, the story and the criteria: two calls on launchers with the same
  \<open>validationResults\<close>, for messages of the same group, return the same.
\<close>

theorem evaluateValidations_idempotent:
  "(evaluateValidations s cr m st = Inr (v, m', st') \<longrightarrow>
       st' = st \<and> validationResults st' = validationResults st
     \<and> (\<exists>m2. evaluateValidations s cr m' st' = Inr (v, m2, st')))
   \<and> (validationResults st2 = validationResults st \<and> cid_m m2 \<noteq> None
        \<and> map_option getCidGroup (cid_m m2) = map_option getCidGroup (cid_m m) \<longrightarrow>
       map_sum id fst (evaluateValidations s cr m2 st2)
         = map_sum id fst (evaluateValidations s cr m st))"
proof -
  have same: "map_sum id fst (evaluateValidations s cr ma sa)
      = map_sum id fst (evaluateValidations s cr mb sb)"
    if "validationResults sa = validationResults sb" and "cid_m ma \<noteq> None"
      and "map_option getCidGroup (cid_m ma) = map_option getCidGroup (cid_m mb)"
    for ma mb sa sb
  proof -
    from that obtain ca cb where c: "cid_m ma = Some ca" "cid_m mb = Some cb"
        "getCidGroup ca = getCidGroup cb"
      by (cases "cid_m ma"; cases "cid_m mb") auto
    show ?thesis
      by (rule evaluateValidations_depends [OF c(1,2)]) (simp add: that(1) c(3))
  qed
  have 1: "st' = st \<and> validationResults st' = validationResults st
     \<and> (\<exists>m2. evaluateValidations s cr m' st' = Inr (v, m2, st'))"
    if e: "evaluateValidations s cr m st = Inr (v, m', st')"
  proof -
    from evaluateValidations_frame [OF e] have f: "st' = st" "cid_m m' = cid_m m" by simp_all
    have n: "cid_m m \<noteq> None" using e by (cases "cid_m m") (simp_all add: evaluateValidations_def)
    have "map_sum id fst (evaluateValidations s cr m' st') = Inr v"
      using same [of st' st m' m] f n e by simp
    then obtain m2 s2 where r: "evaluateValidations s cr m' st' = Inr (v, m2, s2)"
      by (cases "evaluateValidations s cr m' st'") auto
    from evaluateValidations_frame [OF r] have "s2 = st'" by simp
    with r f show ?thesis by auto
  qed
  from 1 same [of st2 st m2 m] show ?thesis by blast
qed

theorem evaluateValidations_idempotent_witness:
  "(\<exists>m' m2. evaluateValidations (Some ''S1'') (Some ''C2'') testPass (validating ''C2'')
                = Inr (''broken'', m', validating ''C2'')
          \<and> evaluateValidations (Some ''S1'') (Some ''C2'') m' (validating ''C2'')
                = Inr (''broken'', m2, validating ''C2''))
   \<and> validationResults ((validating ''C2'')\<lparr>hasStartedAnyProcess := True\<rparr>)
        = validationResults (validating ''C2'')
   \<and> cid_m (testPass\<lparr>cid_m := Some (0, 7)\<rparr>) \<noteq> None
   \<and> map_option getCidGroup (cid_m (testPass\<lparr>cid_m := Some (0, 7)\<rparr>))
        = map_option getCidGroup (cid_m testPass)
   \<and> map_sum id fst (evaluateValidations (Some ''S1'') (Some ''C2'')
          (testPass\<lparr>cid_m := Some (0, 7)\<rparr>) ((validating ''C2'')\<lparr>hasStartedAnyProcess := True\<rparr>))
        = Inr ''broken''"
proof -
  obtain m' where e: "evaluateValidations (Some ''S1'') (Some ''C2'') testPass (validating ''C2'')
                = Inr (''broken'', m', validating ''C2'')"
    by (simp add: evaluateValidations_def joinOutcomes_def reduce1_def get_def validating_eval)
  from evaluateValidations_idempotent [of "Some ''S1''" "Some ''C2''" testPass "validating ''C2''"
      "''broken''" m' "validating ''C2''"] e
  obtain m2 where r: "evaluateValidations (Some ''S1'') (Some ''C2'') m' (validating ''C2'')
                = Inr (''broken'', m2, validating ''C2'')"
    by blast
  have h: "validationResults ((validating ''C2'')\<lparr>hasStartedAnyProcess := True\<rparr>)
        = validationResults (validating ''C2'')
     \<and> cid_m (testPass\<lparr>cid_m := Some (0, 7)\<rparr>) \<noteq> None
     \<and> map_option getCidGroup (cid_m (testPass\<lparr>cid_m := Some (0, 7)\<rparr>))
        = map_option getCidGroup (cid_m testPass)"
    by (simp add: testPass_def noMessage_def getCidGroup_def)
  from evaluateValidations_idempotent [of "Some ''S1''" "Some ''C2''" testPass "validating ''C2''"
      "''broken''" m' "validating ''C2''" "(validating ''C2'')\<lparr>hasStartedAnyProcess := True\<rparr>"
      "testPass\<lparr>cid_m := Some (0, 7)\<rparr>"] h e
  have "map_sum id fst (evaluateValidations (Some ''S1'') (Some ''C2'')
          (testPass\<lparr>cid_m := Some (0, 7)\<rparr>) ((validating ''C2'')\<lparr>hasStartedAnyProcess := True\<rparr>))
        = Inr ''broken''"
    by simp
  with e r h show ?thesis by blast
qed

end
